theory Spec2Isabelle
  imports Main "HOL-Library.Product_Lexorder"
begin

section \<open>Python values, errors and name lookup\<close>

text \<open>
  The history database of loggerhead (\<^verbatim>\<open>loggerhead/history_db.py\<close>) is Python 2 code
  over an SQLite file. Every exception the modelled code can raise is a constructor of
  \<open>error\<close>; a function that can raise returns \<open>error + 'a\<close> with \<open>Inl\<close> for the
  exception. A loop that need not stop is a \<^theory_text>\<open>partial_function\<close> into
  \<open>option\<close>, where \<open>None\<close> means that the loop does not return.
\<close>

datatype error =
    NameError string
  | KeyError
  | IndexError
  | TypeError
  | AssertionError
  | IntegrityError
  | InterfaceError
  | AttributeError
  | ValueError

datatype pyval = PyStr string | PyInt int | PyNone | PyObject

text \<open>
  Reading a name: Python looks in the local scope of the running function, then in the
  module's globals (and the builtins). A name bound nowhere raises \<open>NameError\<close>.
\<close>

definition load_name :: "(string \<times> pyval) list \<Rightarrow> string \<Rightarrow> error + pyval" where
  "load_name scope n = (case map_of scope n of None \<Rightarrow> Inl (NameError n) | Some v \<Rightarrow> Inr v)"

text \<open>The names bound at the top level of \<^verbatim>\<open>loggerhead/history_db.py\<close>.\<close>

definition module_scope :: "(string \<times> pyval) list" where
  "module_scope = map (\<lambda>n. (n, PyObject))
     [''dbapi2'', ''defaultdict'', ''deque'', ''time'', ''debug'', ''errors'', ''lru_cache'',
      ''revision'', ''static_tuple'', ''trace'', ''ui'', ''schema'', ''NULL_PARENTS'',
      ''_n_params'', ''_add_n_params'', ''_get_result_for_many'', ''Importer'',
      ''_MergeSortNode'', ''_IncrementalMergeSort'', ''Querier'']"

section \<open>The store\<close>

text \<open>
  The tables of the SQLite file, each as the list of its rows in insertion order:
  \<^item> \<open>revision(db_id, revision_id, gdfo)\<close>;
  \<^item> \<open>ghost(db_id)\<close>;
  \<^item> \<open>parent(child, parent, parent_idx)\<close>;
  \<^item> \<open>dotted_revno(tip_revision, merged_revision, revno, end_of_merge, merge_depth, dist)\<close>;
  \<^item> \<open>mainline_parent_range(pkey, head, tail, count)\<close>;
  \<^item> \<open>mainline_parent(range, revision, dist)\<close>.
  A query without \<^verbatim>\<open>ORDER BY\<close> returns rows in table order.
\<close>

type_synonym rev_id = string
type_synonym db_id = nat
type_synonym revno = "int list"
type_synonym dotted_row = "db_id \<times> db_id \<times> string \<times> bool \<times> nat \<times> nat"
type_synonym range_row = "nat \<times> db_id \<times> db_id option \<times> nat"

record store =
  t_revision :: "(db_id \<times> rev_id \<times> int) list"
  t_ghost :: "db_id list"
  t_parent :: "(db_id \<times> db_id \<times> nat) list"
  t_dotted_revno :: "dotted_row list"
  t_mainline_parent_range :: "range_row list"
  t_mainline_parent :: "(nat \<times> db_id \<times> nat) list"

definition empty_store :: store where
  "empty_store = \<lparr>t_revision = [], t_ghost = [], t_parent = [], t_dotted_revno = [],
     t_mainline_parent_range = [], t_mainline_parent = []\<rparr>"

text \<open>\<^verbatim>\<open>SELECT db_id FROM revision WHERE revision_id = ?\<close>, \<^verbatim>\<open>fetchone()\<close>.\<close>

definition select_db_id :: "store \<Rightarrow> rev_id \<Rightarrow> db_id option" where
  "select_db_id st r =
     (case filter (\<lambda>(d, r', g). r' = r) (t_revision st) of [] \<Rightarrow> None
      | (d, r', g) # _ \<Rightarrow> Some d)"

text \<open>
  \<^verbatim>\<open>SELECT parent.parent FROM parent WHERE parent.child = ? AND parent_idx = 0\<close>,
  \<^verbatim>\<open>fetchone()\<close>.
\<close>

definition select_lh_parent :: "store \<Rightarrow> db_id \<Rightarrow> db_id option" where
  "select_lh_parent st c =
     (case filter (\<lambda>(c', p, i). c' = c \<and> i = 0) (t_parent st) of [] \<Rightarrow> None
      | (c', p, i) # _ \<Rightarrow> Some p)"

text \<open>
  \<^verbatim>\<open>SELECT ... FROM mainline_parent_range WHERE head = ? ORDER BY count DESC LIMIT 1\<close>:
  the first row of greatest count among those with this head.
\<close>

definition range_count :: "range_row \<Rightarrow> nat" where
  "range_count r = (case r of (k, h, t, c) \<Rightarrow> c)"

definition select_best_range :: "store \<Rightarrow> db_id \<Rightarrow> range_row option" where
  "select_best_range st h =
     (case filter (\<lambda>(k, h', t, c). h' = h) (t_mainline_parent_range st) of [] \<Rightarrow> None
      | r # rs \<Rightarrow> Some (fold (\<lambda>x best. if range_count best < range_count x then x else best) rs r))"

text \<open>\<^verbatim>\<open>SELECT revision FROM mainline_parent WHERE range = ? ORDER BY dist ASC\<close>.\<close>

definition select_range_members_asc :: "store \<Rightarrow> nat \<Rightarrow> db_id list" where
  "select_range_members_asc st k =
     map (\<lambda>(k', d, i). d)
       (sort_key (\<lambda>(k', d, i). i) (filter (\<lambda>(k', d, i). k' = k) (t_mainline_parent st)))"

text \<open>
  The query of \<^verbatim>\<open>Querier.get_children\<close>: the revision ids of the children of the
  revision with the given id, joined in the order of the \<^verbatim>\<open>FROM\<close> clause.
\<close>

definition select_children :: "store \<Rightarrow> rev_id \<Rightarrow> rev_id list" where
  "select_children st r =
     concat (map (\<lambda>(p_id, p_rev, p_g).
       if p_rev = r then
         concat (map (\<lambda>(c, p, i).
           if p = p_id then
             map (\<lambda>(c_id, c_rev, c_g). c_rev) (filter (\<lambda>(c_id, c_rev, c_g). c_id = c) (t_revision st))
           else []) (t_parent st))
       else []) (t_revision st))"

section \<open>Querier: what needs no import\<close>

text \<open>
  The fields of a \<^verbatim>\<open>Querier\<close> that the modelled methods read or write. \<open>q_store\<close> is
  the database file at \<^verbatim>\<open>_db_path\<close>; \<open>q_cursor\<close> says whether \<^verbatim>\<open>_cursor\<close> is set;
  \<open>q_importer_lock\<close> is \<open>None\<close> when no lock was given and otherwise says whether the
  lock is held. \<open>q_trace\<close> is not a field of the class: it records, oldest first, the
  calls that the temporal properties are about. The \<^verbatim>\<open>_stats\<close> counters are left out.
\<close>

datatype event =
    EnsureBranchTip
  | LockAcquire
  | ImportStart
  | ImportDone
  | LockRelease
  | ReadRows

record querier =
  q_store :: store
  q_cursor :: bool
  q_importer_lock :: "bool option"
  q_branch_tip_rev_id :: rev_id
  q_branch_tip_db_id :: "db_id option"
  q_tip_is_imported :: bool
  q_trace :: "event list"

definition q_get_cursor :: "querier \<Rightarrow> querier" where
  "q_get_cursor q = q\<lparr>q_cursor := True\<rparr>"

text \<open>
  \<^verbatim>\<open>Querier._get_db_id\<close>. A file without tables makes the query raise
  \<^verbatim>\<open>OperationalError\<close>, which the method turns into \<^verbatim>\<open>None\<close>: the same answer as
  from an empty \<open>revision\<close> table, which is how the model has it.
\<close>

definition q_get_db_id :: "querier \<Rightarrow> rev_id \<Rightarrow> db_id option \<times> querier" where
  "q_get_db_id q r = (select_db_id (q_store q) r, q_get_cursor q)"

definition q_get_lh_parent_db_id :: "querier \<Rightarrow> db_id \<Rightarrow> db_id option \<times> querier" where
  "q_get_lh_parent_db_id q d = (select_lh_parent (q_store q) d, q_get_cursor q)"

text \<open>\<^verbatim>\<open>Querier._get_range_key_and_tail\<close>: the best range with this head, or the
  left-hand parent when there is none.\<close>

definition q_get_range_key_and_tail :: "querier \<Rightarrow> db_id \<Rightarrow> (nat option \<times> db_id option) \<times> querier" where
  "q_get_range_key_and_tail q tip_db_id =
     (case select_best_range (q_store q) tip_db_id of
        None \<Rightarrow> (case q_get_lh_parent_db_id (q_get_cursor q) tip_db_id of
                   (tail, q') \<Rightarrow> ((None, tail), q'))
      | Some (pkey, h, tail, c) \<Rightarrow> ((Some pkey, tail), q_get_cursor q))"

text \<open>
  \<^verbatim>\<open>Querier.get_children(self, revision_id)\<close>. The tuple of query parameters is
  \<^verbatim>\<open>(revid,)\<close>; it is evaluated before \<^verbatim>\<open>cursor.execute\<close> is called. SQLite binds a
  string or an integer and refuses any other object.
\<close>

definition get_children :: "querier \<Rightarrow> rev_id \<Rightarrow> (error + rev_id list) \<times> querier" where
  "get_children q revision_id =
     (let q1 = q_get_cursor q;
          scope = [(''self'', PyObject), (''revision_id'', PyStr revision_id),
                   (''cursor'', PyObject)] @ module_scope
      in case load_name scope ''revid'' of
           Inl e \<Rightarrow> (Inl e, q1)
         | Inr (PyStr r) \<Rightarrow> (Inr (select_children (q_store q1) r), q1 \<lparr>q_trace := q_trace q1 @ [ReadRows]\<rparr>)
         | Inr (PyInt i) \<Rightarrow> (Inr [], q1 \<lparr>q_trace := q_trace q1 @ [ReadRows]\<rparr>)
         | Inr PyNone \<Rightarrow> (Inr [], q1 \<lparr>q_trace := q_trace q1 @ [ReadRows]\<rparr>)
         | Inr PyObject \<Rightarrow> (Inl InterfaceError, q1))"

text \<open>
  \<^verbatim>\<open>Querier._get_mainline_range_starting_at(self, head_db_id)\<close>. Its body passes
  \<^verbatim>\<open>tip_db_id\<close> to \<^verbatim>\<open>_get_range_key_and_tail\<close>.
\<close>

definition get_mainline_range_starting_at ::
  "querier \<Rightarrow> db_id \<Rightarrow> (error + (db_id list option \<times> db_id option)) \<times> querier" where
  "get_mainline_range_starting_at q head_db_id =
     (let q1 = q_get_cursor q;
          scope = [(''self'', PyObject), (''head_db_id'', PyInt (int head_db_id)),
                   (''cursor'', PyObject)] @ module_scope
      in case load_name scope ''tip_db_id'' of
           Inl e \<Rightarrow> (Inl e, q1)
         | Inr (PyInt i) \<Rightarrow>
             (case q_get_range_key_and_tail q1 (nat i) of
                ((None, next_db_id), q2) \<Rightarrow> (Inr (None, next_db_id), q2)
              | ((Some range_key, next_db_id), q2) \<Rightarrow>
                  (Inr (Some (select_range_members_asc (q_store q2) range_key), next_db_id),
                   q2 \<lparr>q_trace := q_trace q2 @ [ReadRows]\<rparr>))
         | Inr v \<Rightarrow> (Inl InterfaceError, q1))"

text \<open>
  \<^verbatim>\<open>Querier.walk_mainline\<close>: the loop runs while \<^verbatim>\<open>db_id is not None\<close>. Its first
  statement is the lookup of the branch tip's db id; \<^verbatim>\<open>ensure_branch_tip\<close> is not
  called.
\<close>

partial_function (option) walk_mainline_loop ::
  "querier \<Rightarrow> db_id option \<Rightarrow> db_id list \<Rightarrow> ((error + db_id list) \<times> querier) option" where
  "walk_mainline_loop q db_id all_ids =
     (case db_id of
        None \<Rightarrow> Some (Inr all_ids, q)
      | Some d \<Rightarrow>
          (case get_mainline_range_starting_at q d of
             (Inl e, q1) \<Rightarrow> Some (Inl e, q1)
           | (Inr (None, next_db_id), q1) \<Rightarrow> walk_mainline_loop q1 next_db_id (all_ids @ [d])
           | (Inr (Some next_range, next_db_id), q1) \<Rightarrow>
               (case next_range of
                  [] \<Rightarrow> Some (Inl IndexError, q1)
                | r # rs \<Rightarrow>
                    if r = d then walk_mainline_loop q1 next_db_id (all_ids @ next_range)
                    else Some (Inl AssertionError, q1))))"

declare walk_mainline_loop.simps [code]

definition walk_mainline :: "querier \<Rightarrow> ((error + db_id list) \<times> querier) option" where
  "walk_mainline q =
     (case q_get_db_id q (q_branch_tip_rev_id q) of
        (db_id, q1) \<Rightarrow> walk_mainline_loop q1 db_id [])"

text \<open>
  The reference walk of the mainline: one left-hand parent at a time, from a db id.
  It is the sequence that range jumps are meant to reproduce.
\<close>

partial_function (option) lh_parent_walk :: "store \<Rightarrow> db_id option \<Rightarrow> db_id list \<Rightarrow> db_id list option" where
  "lh_parent_walk st db_id acc =
     (case db_id of None \<Rightarrow> Some acc
      | Some d \<Rightarrow> lh_parent_walk st (select_lh_parent st d) (acc @ [d]))"

declare lh_parent_walk.simps [code]

section \<open>Revision numbers as text\<close>

text \<open>
  \<^verbatim>\<open>'.'.join(map(str, node.revno))\<close> writes a revno, and
  \<^verbatim>\<open>map(int, r[1].split('.'))\<close> reads it back. \<open>parse_int\<close> accepts an optional
  minus sign and decimal digits, which is all the importer writes; \<open>None\<close> stands for
  Python's \<^verbatim>\<open>ValueError\<close>.
\<close>

definition digit_char :: "nat \<Rightarrow> char" where
  "digit_char d = ''0123456789'' ! d"

fun str_nat :: "nat \<Rightarrow> string" where
  "str_nat n = (if n < 10 then [digit_char n] else str_nat (n div 10) @ [digit_char (n mod 10)])"

declare str_nat.simps [simp del]

definition str_int :: "int \<Rightarrow> string" where
  "str_int i = (if i < 0 then CHR ''-'' # str_nat (nat (- i)) else str_nat (nat i))"

fun join_dot :: "string list \<Rightarrow> string" where
  "join_dot [] = []"
| "join_dot [x] = x"
| "join_dot (x # y # ys) = x @ CHR ''.'' # join_dot (y # ys)"

definition revno_str :: "revno \<Rightarrow> string" where
  "revno_str r = join_dot (map str_int r)"

fun split_dot :: "string \<Rightarrow> string list" where
  "split_dot [] = [[]]"
| "split_dot (c # cs) =
     (if c = CHR ''.'' then [] # split_dot cs
      else (case split_dot cs of [] \<Rightarrow> [[c]] | w # ws \<Rightarrow> (c # w) # ws))"

definition digit_val :: "char \<Rightarrow> nat option" where
  "digit_val c = (if c \<in> set ''0123456789'' then Some (of_char c - 48) else None)"

fun parse_digits :: "string \<Rightarrow> nat \<Rightarrow> nat option" where
  "parse_digits [] acc = Some acc"
| "parse_digits (c # cs) acc =
     (case digit_val c of None \<Rightarrow> None | Some d \<Rightarrow> parse_digits cs (10 * acc + d))"

definition parse_int :: "string \<Rightarrow> int option" where
  "parse_int s =
     (case s of [] \<Rightarrow> None
      | c # cs \<Rightarrow>
          if c = CHR ''-'' then (if cs = [] then None else map_option (\<lambda>n. - int n) (parse_digits cs 0))
          else map_option int (parse_digits s 0))"

fun parse_ints :: "string list \<Rightarrow> int list option" where
  "parse_ints [] = Some []"
| "parse_ints (w # ws) =
     (case parse_int w of None \<Rightarrow> None
      | Some i \<Rightarrow> (case parse_ints ws of None \<Rightarrow> None | Some is \<Rightarrow> Some (i # is)))"

definition parse_revno :: "string \<Rightarrow> revno option" where
  "parse_revno s = parse_ints (split_dot s)"

section \<open>Importer: mainline ranges\<close>

definition MAINLINE_PARENT_RANGE_LEN :: nat where
  "MAINLINE_PARENT_RANGE_LEN = 100"

text \<open>\<^verbatim>\<open>Importer._get_mainline_range\<close>:
  \<^verbatim>\<open>SELECT revision FROM mainline_parent WHERE range = ? ORDER BY dist DESC\<close>.\<close>

definition select_range_members_desc :: "store \<Rightarrow> nat \<Rightarrow> db_id list" where
  "select_range_members_desc st k =
     map (\<lambda>(k', d, i). d)
       (rev (sort_key (\<lambda>(k', d, i). i) (filter (\<lambda>(k', d, i). k' = k) (t_mainline_parent st))))"

text \<open>The key SQLite gives the next row of \<open>mainline_parent_range\<close>: one more than
  the greatest key in the table.\<close>

definition next_range_key :: "store \<Rightarrow> nat" where
  "next_range_key st = Suc (fold max (map fst (t_mainline_parent_range st)) 0)"

text \<open>\<^verbatim>\<open>Importer._insert_range\<close>: one row of \<open>mainline_parent_range\<close> and one row of
  \<open>mainline_parent\<close> for each member, \<open>dist\<close> counting from the head.\<close>

definition insert_range :: "store \<Rightarrow> db_id list \<Rightarrow> db_id option \<Rightarrow> error + store" where
  "insert_range st range_db_ids tail_db_id =
     (case range_db_ids of
        [] \<Rightarrow> Inl IndexError
      | head_db_id # _ \<Rightarrow>
          (let range_key = next_range_key st
           in Inr (st\<lparr>t_mainline_parent_range :=
                        t_mainline_parent_range st @
                          [(range_key, head_db_id, tail_db_id, length range_db_ids)],
                      t_mainline_parent :=
                        t_mainline_parent st @
                          map (\<lambda>(idx, d). (range_key, d, idx)) (enumerate 0 range_db_ids)\<rparr>)))"

text \<open>
  The first loop of \<^verbatim>\<open>Importer._build_one_mainline\<close>: walk left-hand parents from
  the head, collecting db ids, until a revision that is the head of a range is met (a
  range shorter than the maximum is taken in when something was collected) or the
  mainline ends. It returns the collected ids and the value of \<^verbatim>\<open>cur_db_id\<close>.
\<close>

partial_function (option) build_walk ::
  "store \<Rightarrow> db_id option \<Rightarrow> db_id list \<Rightarrow> (db_id list \<times> db_id option) option" where
  "build_walk st cur_db_id range_db_ids =
     (case cur_db_id of
        None \<Rightarrow> Some (range_db_ids, None)
      | Some c \<Rightarrow>
          (case select_best_range st c of
             Some (range_key, h, tail, next_count) \<Rightarrow>
               if range_db_ids \<noteq> [] \<and> next_count < MAINLINE_PARENT_RANGE_LEN
               then Some (range_db_ids @ select_range_members_desc st range_key, tail)
               else Some (range_db_ids, Some c)
           | None \<Rightarrow> build_walk st (select_lh_parent st c) (range_db_ids @ [c])))"

declare build_walk.simps [code]

text \<open>
  The second loop: cut the last \<open>MAINLINE_PARENT_RANGE_LEN\<close> ids off the list
  (\<^verbatim>\<open>range_db_ids[-100:]\<close>), insert them as a range whose tail is \<^verbatim>\<open>cur_db_id\<close>, and
  go on with the rest and the head of the range just inserted.
\<close>

function insert_ranges :: "store \<Rightarrow> db_id list \<Rightarrow> db_id option \<Rightarrow> error + store" where
  "insert_ranges st range_db_ids cur_db_id =
     (if range_db_ids = [] then Inr st
      else
        (let tail_db_ids = drop (length range_db_ids - MAINLINE_PARENT_RANGE_LEN) range_db_ids;
             rest = take (length range_db_ids - MAINLINE_PARENT_RANGE_LEN) range_db_ids
         in case insert_range st tail_db_ids cur_db_id of
              Inl e \<Rightarrow> Inl e
            | Inr st' \<Rightarrow> insert_ranges st' rest (Some (hd tail_db_ids))))"
  by pat_completeness auto
termination
  by (relation "measure (\<lambda>(st, xs, c). length xs)") (auto simp: MAINLINE_PARENT_RANGE_LEN_def)

declare insert_ranges.simps [simp del]

text \<open>\<^verbatim>\<open>Importer._build_one_mainline\<close>, from the db id of the head.\<close>

definition build_one_mainline_db :: "store \<Rightarrow> db_id \<Rightarrow> (error + store) option" where
  "build_one_mainline_db st head_db_id =
     (case build_walk st (Some head_db_id) [] of
        None \<Rightarrow> None
      | Some (range_db_ids, cur_db_id) \<Rightarrow> Some (insert_ranges st range_db_ids cur_db_id))"

section \<open>Linear histories\<close>

text \<open>
  \<open>lh_chain st cs\<close>: in the store, \<open>cs\<close> is a whole mainline, newest first: each
  revision's left-hand parent is the next one and the last has none.
\<close>

fun lh_chain :: "store \<Rightarrow> db_id list \<Rightarrow> bool" where
  "lh_chain st [] = True"
| "lh_chain st [c] = (select_lh_parent st c = None)"
| "lh_chain st (c # d # ds) = (select_lh_parent st c = Some d \<and> lh_chain st (d # ds))"

text \<open>
  The store of a linear history of \<open>n\<close> revisions with db ids \<open>1\<close> (the root) to
  \<open>n\<close> (the tip), before any range is built.
\<close>

definition linear_store :: "nat \<Rightarrow> store" where
  "linear_store n = empty_store
     \<lparr>t_revision := map (\<lambda>i. (i, str_nat i, int i)) [1..<Suc n],
      t_parent := map (\<lambda>i. (Suc i, i, 0)) [1..<n]\<rparr>"

section \<open>Importer: ancestry discovery and gdfo\<close>

text \<open>
  The repository is read through \<^verbatim>\<open>get_parent_map\<close>: for one revision id it gives
  the list of parents, \<open>Some [NULL_REVISION]\<close> for a root and \<open>None\<close> for a ghost (the
  key is absent from the answer).
\<close>

type_synonym repository = "rev_id \<Rightarrow> rev_id list option"

definition NULL_REVISION :: rev_id where
  "NULL_REVISION = ''null:''"

definition NULL_PARENTS :: "rev_id list" where
  "NULL_PARENTS = [NULL_REVISION]"

text \<open>A Python dictionary that is iterated: an association list with one entry for
  each key, in the order in which the keys were first stored.\<close>

fun dict_set :: "'k \<Rightarrow> 'v \<Rightarrow> ('k \<times> 'v) list \<Rightarrow> ('k \<times> 'v) list" where
  "dict_set k v [] = [(k, v)]"
| "dict_set k v ((k', v') # kvs) =
     (if k = k' then (k, v) # kvs else (k', v') # dict_set k v kvs)"

text \<open>\<^verbatim>\<open>SELECT gdfo FROM revision WHERE revision_id = ?\<close>, \<^verbatim>\<open>fetchone()\<close>.\<close>

definition select_gdfo :: "store \<Rightarrow> rev_id \<Rightarrow> int option" where
  "select_gdfo st r =
     (case filter (\<lambda>(d, r', g). r' = r) (t_revision st) of [] \<Rightarrow> None
      | (d, r', g) # _ \<Rightarrow> Some g)"

definition next_db_id :: "store \<Rightarrow> db_id" where
  "next_db_id st = Suc (fold max (map fst (t_revision st)) 0)"

text \<open>
  Modelled from the spec: the table definitions of \<^verbatim>\<open>history_db_schema\<close> are not part
  of the sources. \<^verbatim>\<open>INSERT INTO revision (revision_id, gdfo) VALUES (?, ?)\<close> gives
  the row the next \<open>db_id\<close> of the table (db ids are dense and assigned in increasing
  order), and the column \<open>rev_id\<close> is \<open>UNIQUE\<close>: a second row for a revision id is
  refused with \<^verbatim>\<open>IntegrityError\<close>.
\<close>

definition insert_revision :: "store \<Rightarrow> rev_id \<Rightarrow> int \<Rightarrow> error + store" where
  "insert_revision st r g =
     (if r \<in> (\<lambda>(d, r', g'). r') ` set (t_revision st) then Inl IntegrityError
      else Inr (st\<lparr>t_revision := t_revision st @ [(next_db_id st, r, g)]\<rparr>))"

text \<open>
  Modelled from the spec: \<open>ghost(db_id PK)\<close> of the missing schema.
  \<^verbatim>\<open>INSERT INTO ghost (db_id) SELECT db_id FROM revision WHERE revision_id = ?\<close>.
\<close>

definition insert_ghost :: "store \<Rightarrow> rev_id \<Rightarrow> error + store" where
  "insert_ghost st r =
     (let ids = map fst (filter (\<lambda>(d, r', g). r' = r) (t_revision st))
      in if (\<exists>d \<in> set ids. d \<in> set (t_ghost st)) \<or> \<not> distinct ids then Inl IntegrityError
         else Inr (st\<lparr>t_ghost := t_ghost st @ ids\<rparr>))"

record fka_state =
  fk_needed :: "rev_id list"
  fk_all_needed :: "rev_id set"
  fk_children :: "rev_id \<Rightarrow> rev_id list"
  fk_parent_map :: "(rev_id \<times> rev_id list) list"
  fk_known :: "(rev_id \<times> int) list"
  fk_store :: store

text \<open>
  The \<^verbatim>\<open>for parent_id in pmap[rev_id]\<close> loop of \<^verbatim>\<open>_find_known_ancestors\<close>:
  a parent not yet known and not yet asked for is pushed on \<^verbatim>\<open>needed\<close>, and the
  revision is recorded as a child of each of its parents. \<open>children\<close> is read with
  \<^verbatim>\<open>children.get(rev_id, [])\<close> only, so a missing key is the empty list.
\<close>

definition fka_parent ::
  "rev_id \<Rightarrow> (rev_id \<times> int) list \<Rightarrow> rev_id \<Rightarrow>
   rev_id list \<times> rev_id set \<times> (rev_id \<Rightarrow> rev_id list) \<Rightarrow>
   rev_id list \<times> rev_id set \<times> (rev_id \<Rightarrow> rev_id list)" where
  "fka_parent rev_id known parent_id nac =
     (case nac of (needed, all_needed, children) \<Rightarrow>
        (let (needed', all_needed') =
               (if map_of known parent_id = None \<and> parent_id \<notin> all_needed
                then (needed @ [parent_id], insert parent_id all_needed)
                else (needed, all_needed))
         in (needed', all_needed', children(parent_id := children parent_id @ [rev_id]))))"

text \<open>One turn of the \<^verbatim>\<open>while needed\<close> loop; \<open>fk_needed s\<close> is not empty.\<close>

definition fka_step :: "repository \<Rightarrow> fka_state \<Rightarrow> error + fka_state" where
  "fka_step repo s =
     (let rev_id = last (fk_needed s);
          s1 = s\<lparr>fk_needed := butlast (fk_needed s)\<rparr>
      in if map_of (fk_known s1) rev_id \<noteq> None then Inr s1
         else
           (case select_gdfo (fk_store s1) rev_id of
              Some g \<Rightarrow> Inr (s1\<lparr>fk_known := fk_known s1 @ [(rev_id, g)]\<rparr>)
            | None \<Rightarrow>
                (let parent_ids = repo rev_id;
                     pm1 = (case parent_ids of None \<Rightarrow> fk_parent_map s1
                            | Some ps \<Rightarrow> dict_set rev_id ps (fk_parent_map s1))
                 in if parent_ids = None \<or> parent_ids = Some NULL_PARENTS then
                      (case insert_revision (fk_store s1) rev_id 1 of
                         Inl e \<Rightarrow> Inl e
                       | Inr st1 \<Rightarrow>
                           (let s2 = s1\<lparr>fk_parent_map := dict_set rev_id [] pm1,
                                        fk_store := st1,
                                        fk_needed := fk_needed s1 @ [rev_id]\<rparr>
                            in if parent_ids = None then
                                 (case insert_ghost st1 rev_id of
                                    Inl e \<Rightarrow> Inl e
                                  | Inr st2 \<Rightarrow> Inr (s2\<lparr>fk_store := st2\<rparr>))
                               else Inr s2))
                    else
                      (case fold (fka_parent rev_id (fk_known s1)) (the parent_ids)
                              (fk_needed s1, fk_all_needed s1, fk_children s1) of
                         (needed, all_needed, children) \<Rightarrow>
                           Inr (s1\<lparr>fk_parent_map := pm1, fk_needed := needed,
                                   fk_all_needed := all_needed, fk_children := children\<rparr>)))))"

partial_function (option) fka_loop :: "repository \<Rightarrow> fka_state \<Rightarrow> (error + fka_state) option" where
  "fka_loop repo s =
     (if fk_needed s = [] then Some (Inr s)
      else (case fka_step repo s of Inl e \<Rightarrow> Some (Inl e) | Inr s' \<Rightarrow> fka_loop repo s'))"

declare fka_loop.simps [code]

text \<open>
  \<^verbatim>\<open>Importer._find_known_ancestors\<close>. \<^verbatim>\<open>all_needed = set(new_tip_rev_id)\<close> is the set
  of the one-character strings of the tip's id.
\<close>

definition find_known_ancestors :: "repository \<Rightarrow> store \<Rightarrow> rev_id \<Rightarrow> (error + fka_state) option" where
  "find_known_ancestors repo st new_tip_rev_id =
     fka_loop repo
       \<lparr>fk_needed = [new_tip_rev_id],
        fk_all_needed = (\<lambda>c. [c]) ` set new_tip_rev_id,
        fk_children = (\<lambda>r. []),
        fk_parent_map = [],
        fk_known = [],
        fk_store = st\<rparr>"

text \<open>
  The inner \<^verbatim>\<open>for parent_id in parent_ids\<close> loop of \<^verbatim>\<open>_compute_gdfo_and_insert\<close>
  with its \<^verbatim>\<open>else\<close> branch: the greatest gdfo of the parents, or \<open>None\<close> when a
  parent's gdfo is not known yet (the \<^verbatim>\<open>break\<close>).
\<close>

fun max_parent_gdfo :: "(rev_id \<Rightarrow> int option) \<Rightarrow> rev_id list \<Rightarrow> int \<Rightarrow> int option" where
  "max_parent_gdfo known [] max_gdfo = Some max_gdfo"
| "max_parent_gdfo known (parent_id # ps) max_gdfo =
     (case known parent_id of
        None \<Rightarrow> None
      | Some this_gdfo \<Rightarrow>
          max_parent_gdfo known ps (if max_gdfo < this_gdfo then this_gdfo else max_gdfo))"

record gdfo_state =
  g_known :: "(rev_id \<times> int) list"
  g_store :: store
  g_pending :: "(int \<times> rev_id) list"

text \<open>The body of \<^verbatim>\<open>for child_id in children.get(rev_id, [])\<close>.\<close>

definition gdfo_child ::
  "(rev_id \<times> rev_id list) list \<Rightarrow> int \<Rightarrow> rev_id \<Rightarrow> gdfo_state \<Rightarrow> error + gdfo_state" where
  "gdfo_child parent_map gdfo child_id s =
     (case map_of (g_known s) child_id of
        Some child_known \<Rightarrow> if gdfo < child_known then Inr s else Inl AssertionError
      | None \<Rightarrow>
          (case map_of parent_map child_id of
             None \<Rightarrow> Inl KeyError
           | Some parent_ids \<Rightarrow>
               (case max_parent_gdfo (map_of (g_known s)) parent_ids (- 1) of
                  None \<Rightarrow> Inr s
                | Some max_gdfo \<Rightarrow>
                    (let child_gdfo = max_gdfo + 1
                     in case insert_revision (g_store s) child_id child_gdfo of
                          Inl e \<Rightarrow> Inl e
                        | Inr st' \<Rightarrow>
                            Inr (s\<lparr>g_known := g_known s @ [(child_id, child_gdfo)],
                                   g_store := st',
                                   g_pending := g_pending s @ [(child_gdfo, child_id)]\<rparr>)))))"

fun gdfo_children ::
  "(rev_id \<times> rev_id list) list \<Rightarrow> int \<Rightarrow> rev_id list \<Rightarrow> gdfo_state \<Rightarrow> error + gdfo_state" where
  "gdfo_children parent_map gdfo [] s = Inr s"
| "gdfo_children parent_map gdfo (child_id # cs) s =
     (case gdfo_child parent_map gdfo child_id s of
        Inl e \<Rightarrow> Inl e
      | Inr s' \<Rightarrow> gdfo_children parent_map gdfo cs s')"

text \<open>One turn of the \<^verbatim>\<open>while pending\<close> loop; \<open>g_pending s\<close> is not empty.\<close>

definition gdfo_step ::
  "(rev_id \<Rightarrow> rev_id list) \<Rightarrow> (rev_id \<times> rev_id list) list \<Rightarrow> gdfo_state \<Rightarrow> error + gdfo_state" where
  "gdfo_step children parent_map s =
     (case last (g_pending s) of (gdfo, rev_id) \<Rightarrow>
        gdfo_children parent_map gdfo (children rev_id) (s\<lparr>g_pending := butlast (g_pending s)\<rparr>))"

partial_function (option) gdfo_loop ::
  "(rev_id \<Rightarrow> rev_id list) \<Rightarrow> (rev_id \<times> rev_id list) list \<Rightarrow> gdfo_state \<Rightarrow>
   (error + gdfo_state) option" where
  "gdfo_loop children parent_map s =
     (if g_pending s = [] then Some (Inr s)
      else (case gdfo_step children parent_map s of
              Inl e \<Rightarrow> Some (Inl e)
            | Inr s' \<Rightarrow> gdfo_loop children parent_map s'))"

declare gdfo_loop.simps [code]

text \<open>
  \<^verbatim>\<open>Importer._compute_gdfo_and_insert\<close> for an importer without a graph
  (\<^verbatim>\<open>incremental=True\<close>, the only mode in which \<^verbatim>\<open>_update_ancestry\<close> runs before a
  graph is loaded): the closing assertions against the graph are skipped.
\<close>

definition compute_gdfo_and_insert ::
  "(rev_id \<times> int) list \<Rightarrow> (rev_id \<Rightarrow> rev_id list) \<Rightarrow> (rev_id \<times> rev_id list) list \<Rightarrow> store \<Rightarrow>
   (error + gdfo_state) option" where
  "compute_gdfo_and_insert known children parent_map st =
     gdfo_loop children parent_map
       \<lparr>g_known = known, g_store = st, g_pending = map (\<lambda>(rev_id, gdfo). (gdfo, rev_id)) known\<rparr>"

text \<open>The first two steps of \<^verbatim>\<open>Importer._update_ancestry\<close>: what they leave in the
  \<open>revision\<close> and \<open>ghost\<close> tables, with the parent map that is inserted next.\<close>

definition update_ancestry_gdfo ::
  "repository \<Rightarrow> store \<Rightarrow> rev_id \<Rightarrow> (error + (fka_state \<times> gdfo_state)) option" where
  "update_ancestry_gdfo repo st new_tip_rev_id =
     (case find_known_ancestors repo st new_tip_rev_id of
        None \<Rightarrow> None
      | Some (Inl e) \<Rightarrow> Some (Inl e)
      | Some (Inr f) \<Rightarrow>
          (case compute_gdfo_and_insert (fk_known f) (fk_children f) (fk_parent_map f) (fk_store f) of
             None \<Rightarrow> None
           | Some (Inl e) \<Rightarrow> Some (Inl e)
           | Some (Inr g) \<Rightarrow> Some (Inr (f, g))))"

section \<open>What an import records about gdfo\<close>

text \<open>The gdfo recorded for a revision id: the same lookup as \<open>select_gdfo\<close>, as a map.\<close>

definition gdfo_map :: "store \<Rightarrow> rev_id \<Rightarrow> int option" where
  "gdfo_map st = map_of (map (\<lambda>(d, r, g). (r, g)) (t_revision st))"

text \<open>
  A revision is recorded without parents when the repository has no entry for it (a
  ghost) or gives \<^verbatim>\<open>NULL_PARENTS\<close> (a root).
\<close>

definition is_root_or_ghost :: "repository \<Rightarrow> rev_id \<Rightarrow> bool" where
  "is_root_or_ghost repo r \<longleftrightarrow> repo r = None \<or> repo r = Some NULL_PARENTS"

text \<open>
  What is claimed of a row of \<open>revision\<close>: gdfo 1 for a root or a ghost; for any other
  revision, every parent is recorded with a smaller gdfo, and the gdfo is one more than
  the greatest gdfo among the parents.
\<close>

definition gdfo_row_ok :: "repository \<Rightarrow> store \<Rightarrow> db_id \<times> rev_id \<times> int \<Rightarrow> bool" where
  "gdfo_row_ok repo st row =
     (case row of (d, r, gd) \<Rightarrow>
        if is_root_or_ghost repo r then gd = 1
        else (\<exists>ps. repo r = Some ps \<and> ps \<noteq> []
               \<and> (\<forall>p \<in> set ps. \<exists>gp. select_gdfo st p = Some gp \<and> gp < gd)
               \<and> gd = 1 + Max ((\<lambda>p. the (select_gdfo st p)) ` set ps)))"

text \<open>
  Invariants of the two loops. A revision that was filed as a child of some parent has
  a non-empty parent list in the repository, and the parent map holds that list.
\<close>

definition child_ok :: "repository \<Rightarrow> (rev_id \<times> rev_id list) list \<Rightarrow> rev_id \<Rightarrow> bool" where
  "child_ok repo pm c \<longleftrightarrow>
     (\<exists>ps. repo c = Some ps \<and> ps \<noteq> NULL_PARENTS \<and> ps \<noteq> [] \<and> map_of pm c = Some ps)"

definition fka_inv :: "repository \<Rightarrow> store \<Rightarrow> fka_state \<Rightarrow> bool" where
  "fka_inv repo st0 s \<longleftrightarrow>
     (\<exists>new. t_revision (fk_store s) = t_revision st0 @ new
        \<and> (\<forall>(d, r, gd) \<in> set new. gd = 1 \<and> is_root_or_ghost repo r
              \<and> map_of (fk_parent_map s) r = Some []))
     \<and> (\<forall>r gd. map_of (fk_known s) r = Some gd \<longrightarrow> gdfo_map (fk_store s) r = Some gd)
     \<and> (\<forall>p. \<forall>c \<in> set (fk_children s p). child_ok repo (fk_parent_map s) c)"

definition pm_ok :: "repository \<Rightarrow> (rev_id \<times> rev_id list) list \<Rightarrow> db_id \<times> rev_id \<times> int \<Rightarrow> bool" where
  "pm_ok repo pm row =
     (case row of (d, r, gd) \<Rightarrow>
        map_of pm r = Some (if is_root_or_ghost repo r then [] else the (repo r)))"

definition gdfo_inv ::
  "repository \<Rightarrow> (rev_id \<times> rev_id list) list \<Rightarrow> store \<Rightarrow> gdfo_state \<Rightarrow> bool" where
  "gdfo_inv repo pm st0 s \<longleftrightarrow>
     (\<exists>new. t_revision (g_store s) = t_revision st0 @ new
        \<and> (\<forall>row \<in> set new. gdfo_row_ok repo (g_store s) row \<and> pm_ok repo pm row))
     \<and> (\<forall>r gd. map_of (g_known s) r = Some gd \<longrightarrow> gdfo_map (g_store s) r = Some gd)
     \<and> (\<forall>(d, r, gd) \<in> set (t_revision (g_store s)). 1 \<le> gd)"

text \<open>A repository with one merge: \<open>D\<close> has the parents \<open>B\<close> and \<open>C\<close>, both children of
  the root \<open>A\<close>.\<close>

definition repo_merge :: repository where
  "repo_merge = map_of [(''D'', [''B'', ''C'']), (''B'', [''A'']), (''C'', [''A'']),
     (''A'', [''null:''])]"

section \<open>The incremental merge sort\<close>

text \<open>
  \<^verbatim>\<open>_MergeSortNode\<close>. \<open>n_revno\<close> and \<open>n_end_of_merge\<close> are \<^verbatim>\<open>None\<close> until the node is
  popped. \<^verbatim>\<open>_pending_parents\<close> is set to \<^verbatim>\<open>None\<close> when the node is popped and not read
  afterwards; the model leaves the list empty instead.
\<close>

record sort_node =
  n_key :: db_id
  n_merge_depth :: nat
  n_revno :: "revno option"
  n_end_of_merge :: "bool option"
  n_left_parent :: "db_id option"
  n_left_pending_parent :: "db_id option"
  n_pending_parents :: "db_id list"
  n_is_first :: bool

text \<open>The keys of \<^verbatim>\<open>_branch_to_child_count\<close>: the integer \<^verbatim>\<open>0\<close> for the mainline,
  the tuple \<^verbatim>\<open>revno[:2]\<close> for a sub-branch.\<close>

datatype branch_key = MainlineBranch | SubBranch "int list"

text \<open>
  \<^verbatim>\<open>_IncrementalMergeSort\<close>. Sets that the code iterates over are lists without
  repetition; sets and dictionaries that are only looked up are sets and maps. Both
  stacks grow at the end of the list, as the Python lists do. \<open>s_store\<close> is the
  database seen through the importer's cursor; the sorter only reads it.
\<close>

record sorter =
  s_store :: store
  s_tip_db_id :: db_id
  s_mainline_db_ids :: "db_id list"
  s_imported_mainline_id :: "db_id option"
  s_known_gdfo :: "db_id \<Rightarrow> int option"
  s_interesting_ancestor_ids :: "db_id list"
  s_imported_dotted_revno :: "db_id \<Rightarrow> (revno \<times> bool \<times> nat) option"
  s_known_dotted :: "revno set"
  s_imported_gdfo :: "int option"
  s_search_tips :: "db_id list"
  s_revno_to_branch_count :: "int \<Rightarrow> int option"
  s_branch_to_child_count :: "branch_key \<Rightarrow> int option"
  s_depth_first_stack :: "sort_node list"
  s_scheduled_stack :: "sort_node list"
  s_seen_parents :: "db_id set"
  s_parent_map :: "db_id \<Rightarrow> db_id list option"
  s_ghosts :: "db_id list"

text \<open>\<^verbatim>\<open>set.add\<close> and \<^verbatim>\<open>set.update\<close> on a set kept as a list.\<close>

definition set_add :: "'a \<Rightarrow> 'a list \<Rightarrow> 'a list" where
  "set_add x xs = (if x \<in> set xs then xs else xs @ [x])"

definition set_update :: "'a list \<Rightarrow> 'a list \<Rightarrow> 'a list" where
  "set_update xs ys = fold set_add ys xs"

text \<open>\<^verbatim>\<open>dict.update\<close> with a list of pairs, and \<^verbatim>\<open>dict.get(key, default)\<close>.\<close>

definition map_update_all :: "('k \<Rightarrow> 'v option) \<Rightarrow> ('k \<times> 'v) list \<Rightarrow> ('k \<Rightarrow> 'v option)" where
  "map_update_all m kvs = fold (\<lambda>(k, v) m'. m'(k \<mapsto> v)) kvs m"

definition dict_get :: "('k \<Rightarrow> 'v option) \<Rightarrow> 'k \<Rightarrow> 'v \<Rightarrow> 'v" where
  "dict_get m k d = (case m k of None \<Rightarrow> d | Some v \<Rightarrow> v)"

text \<open>
  \<^verbatim>\<open>_get_result_for_many\<close>: the query is run on at most 200 parameters at a time and
  the answers are put together.
\<close>

function get_result_for_many :: "('p list \<Rightarrow> 'r list) \<Rightarrow> 'p list \<Rightarrow> 'r list" where
  "get_result_for_many query params =
     (if params = [] then []
      else query (take 200 params) @ get_result_for_many query (drop 200 params))"
  by pat_completeness auto
termination
  by (relation "measure (\<lambda>(q, ps). length ps)") auto

declare get_result_for_many.simps [simp del]

text \<open>The queries of the sorter.
  \<^item> \<open>is_imported_db_id\<close>: \<^verbatim>\<open>SELECT count(*) FROM dotted_revno WHERE tip_revision = ? AND tip_revision = merged_revision\<close>, compared with 0;
  \<^item> \<open>select_dotted_for_tip\<close>: \<^verbatim>\<open>SELECT merged_revision, revno, end_of_merge, merge_depth FROM dotted_revno WHERE tip_revision = ? ORDER BY dist\<close>
    (no row when the parameter is \<^verbatim>\<open>None\<close>);
  \<^item> \<open>select_parent_gdfo\<close>: \<^verbatim>\<open>SELECT parent, gdfo FROM parent, revision WHERE parent = db_id AND child IN (...)\<close>,
    with a condition on \<^verbatim>\<open>parent_idx\<close>;
  \<^item> \<open>select_parent_child\<close>: \<^verbatim>\<open>SELECT parent, child FROM parent WHERE parent IN (...)\<close>;
  \<^item> \<open>select_db_id_gdfo\<close>: \<^verbatim>\<open>SELECT db_id, gdfo FROM revision WHERE db_id IN (...)\<close>;
  \<^item> \<open>select_parents\<close>: \<^verbatim>\<open>SELECT parent FROM parent WHERE child = ? ORDER BY parent_idx\<close>.
\<close>

definition is_imported_db_id :: "store \<Rightarrow> db_id \<Rightarrow> bool" where
  "is_imported_db_id st tip_db_id =
     (0 < length (filter (\<lambda>(t, m, r, e, md, di). t = tip_db_id \<and> t = m) (t_dotted_revno st)))"

definition select_dotted_for_tip :: "store \<Rightarrow> db_id option \<Rightarrow> (db_id \<times> string \<times> bool \<times> nat) list" where
  "select_dotted_for_tip st tip =
     (case tip of
        None \<Rightarrow> []
      | Some t' \<Rightarrow>
          map (\<lambda>(t, m, r, e, md, di). (m, r, e, md))
            (sort_key (\<lambda>(t, m, r, e, md, di). di)
               (filter (\<lambda>(t, m, r, e, md, di). t = t') (t_dotted_revno st))))"

definition select_parent_gdfo :: "store \<Rightarrow> (nat \<Rightarrow> bool) \<Rightarrow> db_id list \<Rightarrow> (db_id \<times> int) list" where
  "select_parent_gdfo st idx_ok children =
     concat (map (\<lambda>(c, p, i).
       if idx_ok i \<and> c \<in> set children
       then map (\<lambda>(d, r, g). (p, g)) (filter (\<lambda>(d, r, g). d = p) (t_revision st))
       else []) (t_parent st))"

definition select_parent_child :: "store \<Rightarrow> db_id list \<Rightarrow> (db_id \<times> db_id) list" where
  "select_parent_child st parents =
     map (\<lambda>(c, p, i). (p, c)) (filter (\<lambda>(c, p, i). p \<in> set parents) (t_parent st))"

definition select_db_id_gdfo :: "store \<Rightarrow> db_id list \<Rightarrow> (db_id \<times> int) list" where
  "select_db_id_gdfo st ids =
     map (\<lambda>(d, r, g). (d, g)) (filter (\<lambda>(d, r, g). d \<in> set ids) (t_revision st))"

definition select_parents :: "store \<Rightarrow> db_id \<Rightarrow> db_id list" where
  "select_parents st child =
     map (\<lambda>(c, p, i). p)
       (sort_key (\<lambda>(c, p, i). i) (filter (\<lambda>(c, p, i). c = child) (t_parent st)))"

text \<open>
  The loop of \<^verbatim>\<open>_update_info_from_dotted_revno\<close> for one revno: the greatest branch
  number seen for the base revno, and the greatest last component seen in the branch.
\<close>

definition bump_child_count :: "branch_key \<Rightarrow> int \<Rightarrow> sorter \<Rightarrow> sorter" where
  "bump_child_count branch_key mini_revno s =
     (case s_branch_to_child_count s branch_key of
        None \<Rightarrow> s\<lparr>s_branch_to_child_count := (s_branch_to_child_count s)(branch_key \<mapsto> mini_revno)\<rparr>
      | Some c \<Rightarrow>
          if c < mini_revno
          then s\<lparr>s_branch_to_child_count := (s_branch_to_child_count s)(branch_key \<mapsto> mini_revno)\<rparr>
          else s)"

definition update_branch_info :: "revno \<Rightarrow> sorter \<Rightarrow> error + sorter" where
  "update_branch_info revno s =
     (if 1 < length revno then
        (let base_revno = revno ! 0;
             s1 = (case s_revno_to_branch_count s base_revno of
                     None \<Rightarrow> s\<lparr>s_revno_to_branch_count :=
                                  (s_revno_to_branch_count s)(base_revno \<mapsto> revno ! 1)\<rparr>
                   | Some c \<Rightarrow>
                       if c < revno ! 1
                       then s\<lparr>s_revno_to_branch_count :=
                                 (s_revno_to_branch_count s)(base_revno \<mapsto> revno ! 1)\<rparr>
                       else s)
         in if length revno < 3 then Inl IndexError
            else Inr (bump_child_count (SubBranch (take 2 revno)) (revno ! 2) s1))
      else
        (case revno of
           [] \<Rightarrow> Inl IndexError
         | mini_revno # _ \<Rightarrow>
             Inr (bump_child_count MainlineBranch mini_revno
                    (case s_revno_to_branch_count s 0 of
                       None \<Rightarrow> s\<lparr>s_revno_to_branch_count := (s_revno_to_branch_count s)(0 \<mapsto> 0)\<rparr>
                     | Some c \<Rightarrow> s))))"

fun update_branch_infos :: "revno list \<Rightarrow> sorter \<Rightarrow> error + sorter" where
  "update_branch_infos [] s = Inr s"
| "update_branch_infos (r # rs) s =
     (case update_branch_info r s of Inl e \<Rightarrow> Inl e | Inr s' \<Rightarrow> update_branch_infos rs s')"

definition update_info_from_dotted_revno ::
  "(db_id \<times> revno \<times> bool \<times> nat) list \<Rightarrow> sorter \<Rightarrow> error + sorter" where
  "update_info_from_dotted_revno dotted_info s =
     update_branch_infos (map (\<lambda>(d, r, e, md). r) dotted_info)
       (s\<lparr>s_imported_dotted_revno := map_update_all (s_imported_dotted_revno s) dotted_info,
          s_known_dotted := s_known_dotted s \<union> set (map (\<lambda>(d, r, e, md). r) dotted_info)\<rparr>)"

text \<open>Reading the rows of one tip: \<^verbatim>\<open>map(int, r[1].split('.'))\<close> for each row.\<close>

fun parse_dotted_rows ::
  "(db_id \<times> string \<times> bool \<times> nat) list \<Rightarrow> error + (db_id \<times> revno \<times> bool \<times> nat) list" where
  "parse_dotted_rows [] = Inr []"
| "parse_dotted_rows ((m, r, e, md) # rows) =
     (case parse_revno r of
        None \<Rightarrow> Inl ValueError
      | Some revno \<Rightarrow>
          (case parse_dotted_rows rows of
             Inl err \<Rightarrow> Inl err
           | Inr infos \<Rightarrow> Inr ((m, revno, e, md) # infos)))"

text \<open>
  \<^verbatim>\<open>_step_mainline\<close>: load the rows of the imported mainline revision and move the
  pointer to its left-hand parent (\<^verbatim>\<open>None\<close> and gdfo 0 when there is none).
\<close>

definition step_mainline :: "sorter \<Rightarrow> error + sorter" where
  "step_mainline s =
     (case parse_dotted_rows (select_dotted_for_tip (s_store s) (s_imported_mainline_id s)) of
        Inl e \<Rightarrow> Inl e
      | Inr dotted_info \<Rightarrow>
          (case update_info_from_dotted_revno dotted_info s of
             Inl e \<Rightarrow> Inl e
           | Inr s1 \<Rightarrow>
               (case (case s_imported_mainline_id s1 of
                        None \<Rightarrow> []
                      | Some c \<Rightarrow> select_parent_gdfo (s_store s1) (\<lambda>i. i = 0) [c]) of
                  [] \<Rightarrow> Inr (s1\<lparr>s_imported_mainline_id := None, s_imported_gdfo := Some 0\<rparr>)
                | (p, g) # _ \<Rightarrow>
                    Inr (s1\<lparr>s_imported_mainline_id := Some p, s_imported_gdfo := Some g,
                            s_known_gdfo := (s_known_gdfo s1)(p \<mapsto> g)\<rparr>))))"

subsection \<open>Finding the interesting ancestry\<close>

text \<open>\<^verbatim>\<open>_find_needed_mainline\<close>: walk left-hand parents from the tip until a revision
  that is an imported tip.\<close>

partial_function (option) needed_mainline_loop ::
  "store \<Rightarrow> db_id option \<Rightarrow> db_id list \<Rightarrow> (db_id list \<times> db_id option) option" where
  "needed_mainline_loop st db_id needed =
     (case db_id of
        None \<Rightarrow> Some (needed, None)
      | Some d \<Rightarrow>
          if is_imported_db_id st d then Some (needed, Some d)
          else needed_mainline_loop st (select_lh_parent st d) (needed @ [d]))"

declare needed_mainline_loop.simps [code]

definition find_needed_mainline :: "sorter \<Rightarrow> sorter option" where
  "find_needed_mainline s =
     (case needed_mainline_loop (s_store s) (Some (s_tip_db_id s)) [] of
        None \<Rightarrow> None
      | Some (needed, db_id) \<Rightarrow>
          Some (s\<lparr>s_mainline_db_ids := needed,
                  s_interesting_ancestor_ids := set_update (s_interesting_ancestor_ids s) needed,
                  s_imported_mainline_id := db_id\<rparr>))"

text \<open>\<^verbatim>\<open>_get_initial_search_tips\<close>: the right-hand parents of the new mainline, one
  step of the imported mainline, and the ghosts.\<close>

definition get_initial_search_tips :: "sorter \<Rightarrow> error + sorter" where
  "get_initial_search_tips s =
     (let res = get_result_for_many (select_parent_gdfo (s_store s) (\<lambda>i. i \<noteq> 0))
                  (s_mainline_db_ids s)
      in case step_mainline
                (s\<lparr>s_search_tips := remdups (map fst res),
                   s_known_gdfo := map_update_all (s_known_gdfo s) res\<rparr>) of
           Inl e \<Rightarrow> Inl e
         | Inr s1 \<Rightarrow> Inr (s1\<lparr>s_ghosts := remdups (t_ghost (s_store s1))\<rparr>))"

text \<open>
  \<^verbatim>\<open>_split_search_tips_by_gdfo\<close>. In Python 2 every integer is \<^verbatim>\<open>>= None\<close>, which is
  what \<open>py_ge\<close> gives while \<^verbatim>\<open>_imported_gdfo\<close> is unset.
\<close>

definition py_ge :: "int \<Rightarrow> int option \<Rightarrow> bool" where
  "py_ge g lim = (case lim of None \<Rightarrow> True | Some l \<Rightarrow> l \<le> g)"

fun split_search_tips_by_gdfo ::
  "db_id list \<Rightarrow> sorter \<Rightarrow> db_id list \<Rightarrow> error + (db_id list \<times> sorter)" where
  "split_search_tips_by_gdfo [] s still_unknown = Inr (still_unknown, s)"
| "split_search_tips_by_gdfo (db_id # unknown) s still_unknown =
     (if s_imported_dotted_revno s db_id \<noteq> None \<or> s_imported_mainline_id s = Some db_id then
        (if db_id \<in> set (s_search_tips s)
         then split_search_tips_by_gdfo unknown
                (s\<lparr>s_search_tips := removeAll db_id (s_search_tips s)\<rparr>) still_unknown
         else Inl KeyError)
      else
        (case s_known_gdfo s db_id of
           None \<Rightarrow> Inl KeyError
         | Some gdfo \<Rightarrow>
             if py_ge gdfo (s_imported_gdfo s)
             then split_search_tips_by_gdfo unknown
                    (s\<lparr>s_interesting_ancestor_ids := set_add db_id (s_interesting_ancestor_ids s)\<rparr>)
                    still_unknown
             else split_search_tips_by_gdfo unknown s (still_unknown @ [db_id])))"

text \<open>
  \<^verbatim>\<open>_split_interesting_using_children\<close>. The query takes all search tips as
  parameters at once. The last loop looks each tip up in \<^verbatim>\<open>parent_to_children\<close>, which
  has a key for every parent that occurs in the answer.
\<close>

definition already_imported_of :: "sorter \<Rightarrow> (db_id \<times> db_id) list \<Rightarrow> db_id set" where
  "already_imported_of s parent_child_res =
     \<Union> ((\<lambda>(p, c). if s_imported_dotted_revno s c \<noteq> None \<or> s_imported_mainline_id s = Some c
                      then {p, c} else {}) ` set parent_child_res)"

fun classify_by_children ::
  "(db_id \<times> db_id) list \<Rightarrow> db_id set \<Rightarrow> db_id set \<Rightarrow> db_id list \<Rightarrow>
   db_id list \<times> db_id list \<Rightarrow> error + (db_id list \<times> db_id list)" where
  "classify_by_children res already_imported possibly_merged [] acc = Inr acc"
| "classify_by_children res already_imported possibly_merged (parent # ps) (still_unknown, interesting) =
     (if parent \<in> already_imported
      then classify_by_children res already_imported possibly_merged ps (still_unknown, interesting)
      else
        (case map snd (filter (\<lambda>(p, c). p = parent) res) of
           [] \<Rightarrow> Inl KeyError
         | cs \<Rightarrow>
             if \<exists>c \<in> set cs. c \<in> possibly_merged
             then classify_by_children res already_imported possibly_merged ps
                    (still_unknown @ [parent], interesting)
             else classify_by_children res already_imported possibly_merged ps
                    (still_unknown, set_add parent interesting)))"

definition split_interesting_using_children ::
  "db_id list \<Rightarrow> sorter \<Rightarrow> error + (db_id list \<times> sorter)" where
  "split_interesting_using_children unknown_search_tips s =
     (let parent_child_res = select_parent_child (s_store s) unknown_search_tips;
          already_imported = already_imported_of s parent_child_res;
          search_tips = filter (\<lambda>t. t \<notin> already_imported) (s_search_tips s);
          possibly_merged_children =
            remdups (map snd (filter (\<lambda>(p, c). c \<notin> set (s_interesting_ancestor_ids s)
                                                  \<and> p \<notin> already_imported) parent_child_res));
          unknown_gdfos = filter (\<lambda>c. s_known_gdfo s c = None) possibly_merged_children;
          known_gdfo = map_update_all (s_known_gdfo s)
                         (select_db_id_gdfo (s_store s) unknown_gdfos)
      in if \<exists>c \<in> set possibly_merged_children. known_gdfo c = None then Inl KeyError
         else
           (let possibly_merged =
                  {c \<in> set possibly_merged_children.
                     \<not> py_ge (the (known_gdfo c)) (s_imported_gdfo s)}
            in case classify_by_children parent_child_res already_imported possibly_merged
                      unknown_search_tips ([], s_interesting_ancestor_ids s) of
                 Inl e \<Rightarrow> Inl e
               | Inr (still_unknown, interesting) \<Rightarrow>
                   Inr (still_unknown,
                        s\<lparr>s_search_tips := search_tips, s_known_gdfo := known_gdfo,
                          s_interesting_ancestor_ids := interesting\<rparr>)))"

text \<open>\<^verbatim>\<open>_step_search_tips\<close>: the parents of the search tips that are not yet known to
  be interesting become the search tips.\<close>

definition step_search_tips :: "sorter \<Rightarrow> sorter" where
  "step_search_tips s =
     (let res = get_result_for_many (select_parent_gdfo (s_store s) (\<lambda>i. True)) (s_search_tips s)
      in s\<lparr>s_search_tips :=
              remdups (filter (\<lambda>p. p \<notin> set (s_interesting_ancestor_ids s)) (map fst res)),
            s_known_gdfo := map_update_all (s_known_gdfo s) res\<rparr>)"

text \<open>\<^verbatim>\<open>_get_parents\<close>: the cached parents, or the rows of the \<open>parent\<close> table, which
  are then cached.\<close>

definition get_parents :: "db_id \<Rightarrow> sorter \<Rightarrow> db_id list \<times> sorter" where
  "get_parents db_id s =
     (case s_parent_map s db_id of
        Some parent_ids \<Rightarrow> (parent_ids, s)
      | None \<Rightarrow>
          (let parent_ids = select_parents (s_store s) db_id
           in (parent_ids, s\<lparr>s_parent_map := (s_parent_map s)(db_id \<mapsto> parent_ids)\<rparr>)))"

text \<open>
  \<^verbatim>\<open>_ensure_lh_parent_info\<close>: the left-hand parents of interesting revisions that are
  neither interesting nor loaded nor ghosts; then the imported mainline is stepped
  until all of them are loaded.
\<close>

fun missing_lh_parents :: "db_id list \<Rightarrow> sorter \<Rightarrow> db_id list \<Rightarrow> db_id list \<times> sorter" where
  "missing_lh_parents [] s missing = (missing, s)"
| "missing_lh_parents (db_id # ids) s missing =
     (case get_parents db_id s of
        (parent_ids, s1) \<Rightarrow>
          (case parent_ids of
             [] \<Rightarrow> missing_lh_parents ids s1 missing
           | lh_parent # _ \<Rightarrow>
               if lh_parent \<in> set (s_interesting_ancestor_ids s1) then missing_lh_parents ids s1 missing
               else if s_imported_dotted_revno s1 lh_parent \<noteq> None then missing_lh_parents ids s1 missing
               else missing_lh_parents ids s1 (set_add lh_parent missing)))"

partial_function (option) ensure_lh_loop :: "db_id list \<Rightarrow> sorter \<Rightarrow> (error + sorter) option" where
  "ensure_lh_loop missing_parent_ids s =
     (if missing_parent_ids = [] then Some (Inr s)
      else
        (case step_mainline s of
           Inl e \<Rightarrow> Some (Inl e)
         | Inr s1 \<Rightarrow>
             ensure_lh_loop
               (filter (\<lambda>p. s_imported_dotted_revno s1 p = None) missing_parent_ids) s1))"

declare ensure_lh_loop.simps [code]

definition ensure_lh_parent_info :: "sorter \<Rightarrow> (error + sorter) option" where
  "ensure_lh_parent_info s =
     (case missing_lh_parents (s_interesting_ancestor_ids s) s [] of
        (missing, s1) \<Rightarrow>
          ensure_lh_loop (filter (\<lambda>p. p \<notin> set (s_ghosts s1)) missing) s1)"

text \<open>The loops of \<^verbatim>\<open>_find_interesting_ancestry\<close>: \<open>classify_loop\<close> is
  \<^verbatim>\<open>while unknown\<close>, \<open>search_loop\<close> is \<^verbatim>\<open>while self._search_tips\<close>.\<close>

partial_function (option) classify_loop :: "db_id list \<Rightarrow> sorter \<Rightarrow> (error + sorter) option" where
  "classify_loop unknown s =
     (if unknown = [] then Some (Inr s)
      else
        (case split_search_tips_by_gdfo unknown s [] of
           Inl e \<Rightarrow> Some (Inl e)
         | Inr (unknown1, s1) \<Rightarrow>
             if unknown1 = [] then Some (Inr s1)
             else
               (case split_interesting_using_children unknown1 s1 of
                  Inl e \<Rightarrow> Some (Inl e)
                | Inr (unknown2, s2) \<Rightarrow>
                    if unknown2 = [] then Some (Inr s2)
                    else
                      (case step_mainline s2 of
                         Inl e \<Rightarrow> Some (Inl e)
                       | Inr s3 \<Rightarrow> classify_loop unknown2 s3))))"

declare classify_loop.simps [code]

partial_function (option) search_loop :: "sorter \<Rightarrow> (error + sorter) option" where
  "search_loop s =
     (if s_search_tips s = [] then Some (Inr s)
      else
        (case classify_loop (s_search_tips s) s of
           None \<Rightarrow> None
         | Some (Inl e) \<Rightarrow> Some (Inl e)
         | Some (Inr s1) \<Rightarrow> search_loop (step_search_tips s1)))"

declare search_loop.simps [code]

definition find_interesting_ancestry :: "sorter \<Rightarrow> (error + sorter) option" where
  "find_interesting_ancestry s =
     (case find_needed_mainline s of
        None \<Rightarrow> None
      | Some s1 \<Rightarrow>
          (case get_initial_search_tips s1 of
             Inl e \<Rightarrow> Some (Inl e)
           | Inr s2 \<Rightarrow>
               (case search_loop s2 of
                  None \<Rightarrow> None
                | Some (Inl e) \<Rightarrow> Some (Inl e)
                | Some (Inr s3) \<Rightarrow> ensure_lh_parent_info s3)))"

subsection \<open>Numbering\<close>

text \<open>
  \<^verbatim>\<open>_is_first_child\<close>: false when the parent was already seen in this walk; otherwise
  the parent is marked as seen, and the answer is false exactly when the parent's
  revno is loaded and a later revno of the same branch is loaded too.
\<close>

definition is_first_child :: "db_id \<Rightarrow> sorter \<Rightarrow> error + (bool \<times> sorter)" where
  "is_first_child parent_id s =
     (if parent_id \<in> s_seen_parents s then Inr (False, s)
      else
        (let s1 = s\<lparr>s_seen_parents := insert parent_id (s_seen_parents s)\<rparr>
         in case s_imported_dotted_revno s1 parent_id of
              None \<Rightarrow> Inr (True, s1)
            | Some (revno, eom, depth) \<Rightarrow>
                if 1 < length revno then
                  (if length revno < 3 then Inl IndexError
                   else Inr (\<not> revno ! 2 < dict_get (s_branch_to_child_count s1)
                                               (SubBranch (take 2 revno)) 0, s1))
                else
                  (case revno of
                     [] \<Rightarrow> Inl IndexError
                   | mini_revno # _ \<Rightarrow>
                       Inr (\<not> mini_revno < dict_get (s_branch_to_child_count s1) MainlineBranch 0,
                            s1))))"

text \<open>
  \<^verbatim>\<open>_push_node\<close>: a revision that is not interesting is not pushed. A revision
  without parents, or whose left-hand parent is a ghost, gets no left parent and
  \<^verbatim>\<open>is_first = True\<close>. Ghosts are dropped from the other parents.
\<close>

definition push_node :: "db_id \<Rightarrow> nat \<Rightarrow> sorter \<Rightarrow> error + sorter" where
  "push_node db_id merge_depth s =
     (if db_id \<notin> set (s_interesting_ancestor_ids s) then Inr s
      else
        (case get_parents db_id s of
           (parent_ids, s1) \<Rightarrow>
             (case (case parent_ids of
                      [] \<Rightarrow> Inr (None, True, s1)
                    | left_parent # _ \<Rightarrow>
                        if left_parent \<in> set (s_ghosts s1) then Inr (None, True, s1)
                        else
                          (case is_first_child left_parent s1 of
                             Inl e \<Rightarrow> Inl e
                           | Inr (is_first, s2) \<Rightarrow> Inr (Some left_parent, is_first, s2))) of
                Inl e \<Rightarrow> Inl e
              | Inr (left_parent, is_first, s2) \<Rightarrow>
                  Inr (s2\<lparr>s_depth_first_stack :=
                            s_depth_first_stack s2 @
                              [\<lparr>n_key = db_id, n_merge_depth = merge_depth, n_revno = None,
                                n_end_of_merge = None, n_left_parent = left_parent,
                                n_left_pending_parent = left_parent,
                                n_pending_parents =
                                  filter (\<lambda>p. p \<notin> set (s_ghosts s2)) (tl parent_ids),
                                n_is_first = is_first\<rparr>]\<rparr>))))"

text \<open>
  \<^verbatim>\<open>_step_to_latest_branch\<close>: step the imported mainline until the base revno itself
  or the first revision of the latest known branch of the base revno is loaded, or the
  imported mainline is used up.
\<close>

partial_function (option) step_to_latest_branch :: "int \<Rightarrow> sorter \<Rightarrow> (error + sorter) option" where
  "step_to_latest_branch base_revno s =
     (if s_imported_mainline_id s = None then Some (Inr s)
      else if [base_revno] \<in> s_known_dotted s then Some (Inr s)
      else if [base_revno, dict_get (s_revno_to_branch_count s) base_revno 0, 1] \<in> s_known_dotted s
        then Some (Inr s)
      else
        (case step_mainline s of
           Inl e \<Rightarrow> Some (Inl e)
         | Inr s' \<Rightarrow> step_to_latest_branch base_revno s'))"

declare step_to_latest_branch.simps [code]

text \<open>
  The first part of \<^verbatim>\<open>_pop_node\<close>, the revno of the node, in its three branches.
  A first child continues the branch of its left-hand parent: the parent's revno with
  the last component incremented (\<^verbatim>\<open>parent_revno[:2] + (parent_revno[2] + 1,)\<close> for a
  dotted revno).
\<close>

definition first_child_revno :: "revno \<Rightarrow> sorter \<Rightarrow> error + (revno \<times> sorter)" where
  "first_child_revno parent_revno s =
     (if length parent_revno = 1 then
        (let mini_revno = parent_revno ! 0 + 1
         in case s_branch_to_child_count s MainlineBranch of
              None \<Rightarrow> Inl KeyError
            | Some c \<Rightarrow>
                Inr ([mini_revno],
                     if c < mini_revno
                     then s\<lparr>s_branch_to_child_count :=
                              (s_branch_to_child_count s)(MainlineBranch \<mapsto> mini_revno)\<rparr>
                     else s))
      else if length parent_revno < 3 then Inl IndexError
      else Inr (take 2 parent_revno @ [parent_revno ! 2 + 1], s))"

text \<open>
  Any other child opens a new branch of the base revno; when the parent is itself on
  a branch, the imported mainline is first stepped to the latest branch of the base.
\<close>

definition new_branch_revno :: "revno \<Rightarrow> sorter \<Rightarrow> (error + (revno \<times> sorter)) option" where
  "new_branch_revno parent_revno s =
     (case (if 1 < length parent_revno
            then step_to_latest_branch (parent_revno ! 0) s
            else Some (Inr s)) of
        None \<Rightarrow> None
      | Some (Inl e) \<Rightarrow> Some (Inl e)
      | Some (Inr s1) \<Rightarrow>
          (case parent_revno of
             [] \<Rightarrow> Some (Inl IndexError)
           | base_revno # _ \<Rightarrow>
               (let branch_count = dict_get (s_revno_to_branch_count s1) base_revno 0 + 1
                in Some (Inr ([base_revno, branch_count, 1],
                     s1\<lparr>s_revno_to_branch_count :=
                           (s_revno_to_branch_count s1)(base_revno \<mapsto> branch_count)\<rparr>)))))"

text \<open>
  A node without a left parent is a new root. The next new-root counter decides:
  \<^verbatim>\<open>(1,)\<close> when it is 0, which is the case when nothing is counted for revno 0 yet,
  and \<^verbatim>\<open>(0, branch_count, 1)\<close> otherwise.
\<close>

definition new_root_revno :: "sorter \<Rightarrow> (error + (revno \<times> sorter)) option" where
  "new_root_revno s =
     (case step_to_latest_branch 0 s of
        None \<Rightarrow> None
      | Some (Inl e) \<Rightarrow> Some (Inl e)
      | Some (Inr s1) \<Rightarrow>
          (let branch_count = dict_get (s_revno_to_branch_count s1) 0 (- 1) + 1;
               s2 = s1\<lparr>s_revno_to_branch_count :=
                          (s_revno_to_branch_count s1)(0 \<mapsto> branch_count)\<rparr>
           in if branch_count = 0
              then Some (Inr ([1],
                     s2\<lparr>s_branch_to_child_count :=
                           (s_branch_to_child_count s2)(MainlineBranch \<mapsto> 1)\<rparr>))
              else Some (Inr ([0, branch_count, 1], s2))))"

text \<open>With a left parent, its revno must be loaded or assigned (\<^verbatim>\<open>KeyError\<close>
  otherwise).\<close>

definition pop_revno :: "sort_node \<Rightarrow> sorter \<Rightarrow> (error + (revno \<times> sorter)) option" where
  "pop_revno node s =
     (case n_left_parent node of
        Some left_parent \<Rightarrow>
          (case s_imported_dotted_revno s left_parent of
             None \<Rightarrow> Some (Inl KeyError)
           | Some (parent_revno, eom, depth) \<Rightarrow>
               if n_is_first node then Some (first_child_revno parent_revno s)
               else new_branch_revno parent_revno s)
      | None \<Rightarrow> new_root_revno s)"

text \<open>The second part: \<^verbatim>\<open>end_of_merge\<close>, from the node scheduled just before.\<close>

definition pop_end_of_merge :: "sort_node \<Rightarrow> sorter \<Rightarrow> error + bool" where
  "pop_end_of_merge node s =
     (case s_scheduled_stack s of
        [] \<Rightarrow> Inr (\<not> (n_left_parent node \<noteq> None \<and> n_merge_depth node = 0))
      | _ # _ \<Rightarrow>
          (let prev_node = last (s_scheduled_stack s)
           in if n_merge_depth prev_node < n_merge_depth node then Inr True
              else if n_merge_depth prev_node = n_merge_depth node then
                (case s_parent_map s (n_key node) of
                   None \<Rightarrow> Inl KeyError
                 | Some parent_ids \<Rightarrow> Inr (n_key prev_node \<notin> set parent_ids))
              else Inr False))"

text \<open>\<^verbatim>\<open>_pop_node\<close>: the last node of the depth-first stack gets its revno and
  \<^verbatim>\<open>end_of_merge\<close>, is recorded as numbered, and goes onto the scheduled stack.\<close>

definition pop_node :: "sorter \<Rightarrow> (error + sorter) option" where
  "pop_node s =
     (case s_depth_first_stack s of
        [] \<Rightarrow> Some (Inl IndexError)
      | _ # _ \<Rightarrow>
          (let node = last (s_depth_first_stack s);
               s0 = s\<lparr>s_depth_first_stack := butlast (s_depth_first_stack s)\<rparr>
           in case pop_revno node s0 of
                None \<Rightarrow> None
              | Some (Inl e) \<Rightarrow> Some (Inl e)
              | Some (Inr (revno, s1)) \<Rightarrow>
                  (case pop_end_of_merge node s1 of
                     Inl e \<Rightarrow> Some (Inl e)
                   | Inr end_of_merge \<Rightarrow>
                       Some (Inr (s1\<lparr>s_imported_dotted_revno :=
                                       (s_imported_dotted_revno s1)
                                         (n_key node \<mapsto> (revno, end_of_merge, n_merge_depth node)),
                                     s_known_dotted := insert revno (s_known_dotted s1),
                                     s_scheduled_stack :=
                                       s_scheduled_stack s1 @
                                         [node\<lparr>n_revno := Some revno,
                                               n_end_of_merge := Some end_of_merge,
                                               n_pending_parents := []\<rparr>]\<rparr>)))))"

text \<open>
  The inner loop of \<^verbatim>\<open>_compute_merge_sort\<close> on the top node: take the left-hand
  parent first and then the other parents from the last to the first, skipping those
  that are numbered, until one is found to push. The result is that parent (if any)
  and what is left pending on the node.
\<close>

function next_pending ::
  "(db_id \<Rightarrow> bool) \<Rightarrow> db_id option \<Rightarrow> db_id list \<Rightarrow> db_id option \<times> db_id option \<times> db_id list" where
  "next_pending numbered left_pending pending =
     (case left_pending of
        Some next_id \<Rightarrow>
          if numbered next_id then next_pending numbered None pending
          else (Some next_id, None, pending)
      | None \<Rightarrow>
          if pending = [] then (None, None, [])
          else if numbered (last pending) then next_pending numbered None (butlast pending)
          else (Some (last pending), None, butlast pending))"
  by pat_completeness auto
termination
  by (relation "measure (\<lambda>(f, lp, ps). (case lp of None \<Rightarrow> 0 | Some _ \<Rightarrow> 1) + length ps)") auto

declare next_pending.simps [simp del]

text \<open>One turn of the outer \<^verbatim>\<open>while self._depth_first_stack\<close> loop; the stack is not
  empty.\<close>

definition merge_sort_step :: "sorter \<Rightarrow> (error + sorter) option" where
  "merge_sort_step s =
     (let last_node = last (s_depth_first_stack s)
      in if n_left_pending_parent last_node = None \<and> n_pending_parents last_node = []
         then pop_node s
         else
           (case next_pending (\<lambda>d. s_imported_dotted_revno s d \<noteq> None)
                   (n_left_pending_parent last_node) (n_pending_parents last_node) of
              (next_id, left_pending, pending) \<Rightarrow>
                (let s1 = s\<lparr>s_depth_first_stack :=
                              butlast (s_depth_first_stack s) @
                                [last_node\<lparr>n_left_pending_parent := left_pending,
                                           n_pending_parents := pending\<rparr>]\<rparr>
                 in case next_id of
                      None \<Rightarrow> Some (Inr s1)
                    | Some d \<Rightarrow>
                        Some (push_node d
                                (if n_left_parent last_node = Some d
                                 then n_merge_depth last_node
                                 else n_merge_depth last_node + 1) s1))))"

partial_function (option) merge_sort_loop :: "sorter \<Rightarrow> (error + sorter) option" where
  "merge_sort_loop s =
     (if s_depth_first_stack s = [] then Some (Inr s)
      else
        (case merge_sort_step s of
           None \<Rightarrow> None
         | Some (Inl e) \<Rightarrow> Some (Inl e)
         | Some (Inr s') \<Rightarrow> merge_sort_loop s'))"

declare merge_sort_loop.simps [code]

text \<open>\<^verbatim>\<open>_compute_merge_sort\<close>: the walk starts at the first of the needed mainline
  revisions, which is the tip, at merge depth 0.\<close>

definition compute_merge_sort :: "sorter \<Rightarrow> (error + sorter) option" where
  "compute_merge_sort s =
     (let s0 = s\<lparr>s_depth_first_stack := [], s_scheduled_stack := [], s_seen_parents := {}\<rparr>
      in case s_mainline_db_ids s0 of
           [] \<Rightarrow> Some (Inr s0)
         | tip # _ \<Rightarrow>
             (case push_node tip 0 s0 of
                Inl e \<Rightarrow> Some (Inl e)
              | Inr s1 \<Rightarrow> merge_sort_loop s1))"

text \<open>\<^verbatim>\<open>topo_order\<close>: the scheduled stack, tip first.\<close>

definition topo_order :: "sorter \<Rightarrow> (error + (sort_node list \<times> sorter)) option" where
  "topo_order s =
     (case find_interesting_ancestry s of
        None \<Rightarrow> None
      | Some (Inl e) \<Rightarrow> Some (Inl e)
      | Some (Inr s1) \<Rightarrow>
          (case compute_merge_sort s1 of
             None \<Rightarrow> None
           | Some (Inl e) \<Rightarrow> Some (Inl e)
           | Some (Inr s2) \<Rightarrow> Some (Inr (rev (s_scheduled_stack s2), s2))))"

text \<open>\<^verbatim>\<open>_IncrementalMergeSort.__init__\<close>.\<close>

definition new_sorter :: "store \<Rightarrow> (db_id \<Rightarrow> db_id list option) \<Rightarrow> db_id \<Rightarrow> sorter" where
  "new_sorter st db_parent_map tip_db_id =
     \<lparr>s_store = st, s_tip_db_id = tip_db_id, s_mainline_db_ids = [],
      s_imported_mainline_id = None, s_known_gdfo = (\<lambda>d. None),
      s_interesting_ancestor_ids = [], s_imported_dotted_revno = (\<lambda>d. None),
      s_known_dotted = {}, s_imported_gdfo = None, s_search_tips = [],
      s_revno_to_branch_count = (\<lambda>b. None), s_branch_to_child_count = (\<lambda>k. None),
      s_depth_first_stack = [], s_scheduled_stack = [], s_seen_parents = {},
      s_parent_map = db_parent_map, s_ghosts = []\<rparr>"

section \<open>Importer\<close>

text \<open>
  A node of a merge-sorted list as the importer stores it: the revision id, the merge
  depth, the revno and the end-of-merge flag.
\<close>

record ms_node =
  ms_key :: rev_id
  ms_merge_depth :: nat
  ms_revno :: revno
  ms_end_of_merge :: bool

text \<open>
  The \<^verbatim>\<open>KnownGraph\<close> of the version-control library, which an importer that is not
  incremental loads when it is made: its merge sort of the ancestry of a tip (the
  reference sorter), the parents of a revision, and its gdfo.
\<close>

record known_graph =
  kg_merge_sort :: "rev_id \<Rightarrow> ms_node list"
  kg_parent_keys :: "rev_id \<Rightarrow> rev_id list"
  kg_gdfo :: "rev_id \<Rightarrow> int option"

text \<open>
  \<^verbatim>\<open>Importer\<close>. \<open>i_store\<close> is the database as the importer's connection sees it,
  with its own writes; \<open>i_committed\<close> is what the file holds, which is what a
  \<^verbatim>\<open>commit()\<close> replaces by \<open>i_store\<close>. The validating mode and the progress bar are
  left out.
\<close>

record importer =
  i_store :: store
  i_committed :: store
  i_incremental :: bool
  i_branch_tip_rev_id :: rev_id
  i_repo :: repository
  i_graph :: "known_graph option"
  i_rev_id_to_db_id :: "rev_id \<Rightarrow> db_id option"
  i_db_id_to_rev_id :: "db_id \<Rightarrow> rev_id option"
  i_db_parent_map :: "db_id \<Rightarrow> db_id list option"

definition new_importer :: "store \<Rightarrow> repository \<Rightarrow> known_graph option \<Rightarrow> rev_id \<Rightarrow> bool \<Rightarrow> importer" where
  "new_importer st repo graph tip_revision_id incremental =
     \<lparr>i_store = st, i_committed = st, i_incremental = incremental,
      i_branch_tip_rev_id = tip_revision_id, i_repo = repo, i_graph = graph,
      i_rev_id_to_db_id = (\<lambda>r. None), i_db_id_to_rev_id = (\<lambda>d. None),
      i_db_parent_map = (\<lambda>d. None)\<rparr>"

definition commit :: "importer \<Rightarrow> importer" where
  "commit imp = imp\<lparr>i_committed := i_store imp\<rparr>"

text \<open>
  Modelled from the spec: \<^verbatim>\<open>schema.ensure_revisions\<close> is not part of the sources. It
  interns revision ids (section 4.2: idempotent, allocating a db id on first sight) and
  fills the importer's two maps. The specification does not say which gdfo a row
  allocated here carries; the model takes the graph's, which
  \<^verbatim>\<open>_compute_gdfo_and_insert\<close> asserts of every recorded gdfo, and raises when the
  importer has no graph to ask.
\<close>

fun ensure_revisions :: "rev_id list \<Rightarrow> importer \<Rightarrow> error + importer" where
  "ensure_revisions [] imp = Inr imp"
| "ensure_revisions (r # rs) imp =
     (if i_rev_id_to_db_id imp r \<noteq> None then ensure_revisions rs imp
      else
        (case select_db_id (i_store imp) r of
           Some d \<Rightarrow>
             ensure_revisions rs
               (imp\<lparr>i_rev_id_to_db_id := (i_rev_id_to_db_id imp)(r \<mapsto> d),
                    i_db_id_to_rev_id := (i_db_id_to_rev_id imp)(d \<mapsto> r)\<rparr>)
         | None \<Rightarrow>
             (case i_graph imp of
                None \<Rightarrow> Inl AttributeError
              | Some kg \<Rightarrow>
                  (case kg_gdfo kg r of
                     None \<Rightarrow> Inl KeyError
                   | Some g \<Rightarrow>
                       (case insert_revision (i_store imp) r g of
                          Inl e \<Rightarrow> Inl e
                        | Inr st' \<Rightarrow>
                            ensure_revisions rs
                              (imp\<lparr>i_store := st',
                                   i_rev_id_to_db_id :=
                                     (i_rev_id_to_db_id imp)(r \<mapsto> next_db_id (i_store imp)),
                                   i_db_id_to_rev_id :=
                                     (i_db_id_to_rev_id imp)(next_db_id (i_store imp) \<mapsto> r)\<rparr>))))))"

text \<open>\<^verbatim>\<open>[r_to_d[p_id] for p_id in parent_ids]\<close>.\<close>

fun lookup_all :: "('k \<Rightarrow> 'v option) \<Rightarrow> 'k list \<Rightarrow> error + 'v list" where
  "lookup_all m [] = Inr []"
| "lookup_all m (k # ks) =
     (case m k of
        None \<Rightarrow> Inl KeyError
      | Some v \<Rightarrow> (case lookup_all m ks of Inl e \<Rightarrow> Inl e | Inr vs \<Rightarrow> Inr (v # vs)))"

text \<open>The loop of \<^verbatim>\<open>_insert_parent_map\<close> that collects the rows to insert; a revision
  whose parents are already in \<^verbatim>\<open>_db_parent_map\<close> is skipped.\<close>

fun parent_rows ::
  "(rev_id \<times> rev_id list) list \<Rightarrow> importer \<Rightarrow> (db_id \<times> db_id \<times> nat) list \<Rightarrow>
   error + ((db_id \<times> db_id \<times> nat) list \<times> importer)" where
  "parent_rows [] imp data = Inr (data, imp)"
| "parent_rows ((rev_id, parent_ids) # pm) imp data =
     (case i_rev_id_to_db_id imp rev_id of
        None \<Rightarrow> Inl KeyError
      | Some db_id \<Rightarrow>
          if i_db_parent_map imp db_id \<noteq> None then parent_rows pm imp data
          else
            (case lookup_all (i_rev_id_to_db_id imp) parent_ids of
               Inl e \<Rightarrow> Inl e
             | Inr parent_db_ids \<Rightarrow>
                 parent_rows pm
                   (imp\<lparr>i_db_parent_map := (i_db_parent_map imp)(db_id \<mapsto> parent_db_ids)\<rparr>)
                   (data @ map (\<lambda>(idx, p). (db_id, p, idx)) (enumerate 0 parent_db_ids))))"

text \<open>
  Modelled from the spec: \<open>parent\<close> has \<open>UNIQUE(child, parent_idx)\<close> in the missing
  schema. \<^verbatim>\<open>INSERT OR IGNORE INTO parent\<close> skips a row whose child and index are there.
\<close>

fun insert_or_ignore_parents :: "(db_id \<times> db_id \<times> nat) list \<Rightarrow> store \<Rightarrow> store" where
  "insert_or_ignore_parents [] st = st"
| "insert_or_ignore_parents ((c, p, i) # rows) st =
     insert_or_ignore_parents rows
       (if \<exists>(c', p', i') \<in> set (t_parent st). c' = c \<and> i' = i then st
        else st\<lparr>t_parent := t_parent st @ [(c, p, i)]\<rparr>)"

text \<open>\<^verbatim>\<open>Importer._insert_parent_map\<close>; the rows are sorted before they are inserted.\<close>

definition insert_parent_map :: "(rev_id \<times> rev_id list) list \<Rightarrow> importer \<Rightarrow> error + importer" where
  "insert_parent_map parent_map imp =
     (case ensure_revisions
             (remdups (filter (\<lambda>r. i_rev_id_to_db_id imp r = None)
                (map fst parent_map @ concat (map snd parent_map)))) imp of
        Inl e \<Rightarrow> Inl e
      | Inr imp1 \<Rightarrow>
          (case parent_rows parent_map imp1 [] of
             Inl e \<Rightarrow> Inl e
           | Inr (data, imp2) \<Rightarrow>
               Inr (imp2\<lparr>i_store := insert_or_ignore_parents (sort data) (i_store imp2)\<rparr>)))"

text \<open>\<^verbatim>\<open>Importer._update_ancestry\<close>.\<close>

definition update_ancestry :: "rev_id \<Rightarrow> importer \<Rightarrow> (error + importer) option" where
  "update_ancestry new_tip_rev_id imp =
     (case update_ancestry_gdfo (i_repo imp) (i_store imp) new_tip_rev_id of
        None \<Rightarrow> None
      | Some (Inl e) \<Rightarrow> Some (Inl e)
      | Some (Inr (f, g)) \<Rightarrow>
          Some (insert_parent_map (fk_parent_map f) (imp\<lparr>i_store := g_store g\<rparr>)))"

text \<open>
  The loop of \<^verbatim>\<open>_get_merge_sorted_tip\<close> that maps the db id of each node back to its
  revision id, from the importer's map or else from the \<open>revision\<close> table.
\<close>

definition select_rev_id :: "store \<Rightarrow> db_id \<Rightarrow> rev_id option" where
  "select_rev_id st d =
     (case filter (\<lambda>(d', r, g). d' = d) (t_revision st) of [] \<Rightarrow> None
      | (d', r, g) # _ \<Rightarrow> Some r)"

fun nodes_to_keys :: "sort_node list \<Rightarrow> importer \<Rightarrow> error + (ms_node list \<times> importer)" where
  "nodes_to_keys [] imp = Inr ([], imp)"
| "nodes_to_keys (node # nodes) imp =
     (case (case i_db_id_to_rev_id imp (n_key node) of
              Some r \<Rightarrow> Inr (r, imp)
            | None \<Rightarrow>
                (case select_rev_id (i_store imp) (n_key node) of
                   None \<Rightarrow> Inl TypeError
                 | Some r \<Rightarrow>
                     Inr (r, imp\<lparr>i_db_id_to_rev_id := (i_db_id_to_rev_id imp)(n_key node \<mapsto> r),
                                 i_rev_id_to_db_id := (i_rev_id_to_db_id imp)(r \<mapsto> n_key node)\<rparr>))) of
        Inl e \<Rightarrow> Inl e
      | Inr (r, imp1) \<Rightarrow>
          (case (n_revno node, n_end_of_merge node) of
             (Some revno, Some eom) \<Rightarrow>
               (case nodes_to_keys nodes imp1 of
                  Inl e \<Rightarrow> Inl e
                | Inr (ms, imp2) \<Rightarrow>
                    Inr (\<lparr>ms_key = r, ms_merge_depth = n_merge_depth node, ms_revno = revno,
                          ms_end_of_merge = eom\<rparr> # ms, imp2))
           | _ \<Rightarrow> Inl TypeError))"

text \<open>\<^verbatim>\<open>Importer._get_merge_sorted_tip\<close>: the incremental sorter, or the graph's merge
  sort.\<close>

definition get_merge_sorted_tip :: "rev_id \<Rightarrow> importer \<Rightarrow> (error + (ms_node list \<times> importer)) option" where
  "get_merge_sorted_tip tip_revision_id imp =
     (if i_incremental imp then
        (case update_ancestry tip_revision_id imp of
           None \<Rightarrow> None
         | Some (Inl e) \<Rightarrow> Some (Inl e)
         | Some (Inr imp1) \<Rightarrow>
             (case ensure_revisions [tip_revision_id] imp1 of
                Inl e \<Rightarrow> Some (Inl e)
              | Inr imp2 \<Rightarrow>
                  (case i_rev_id_to_db_id imp2 tip_revision_id of
                     None \<Rightarrow> Some (Inl KeyError)
                   | Some tip_db_id \<Rightarrow>
                       (case topo_order (new_sorter (i_store imp2) (i_db_parent_map imp2) tip_db_id) of
                          None \<Rightarrow> None
                        | Some (Inl e) \<Rightarrow> Some (Inl e)
                        | Some (Inr (merge_sorted, srt)) \<Rightarrow>
                            Some (nodes_to_keys merge_sorted
                                    (imp2\<lparr>i_db_parent_map := s_parent_map srt\<rparr>))))))
      else
        (case i_graph imp of
           None \<Rightarrow> Some (Inl AttributeError)
         | Some kg \<Rightarrow> Some (Inr (kg_merge_sort kg tip_revision_id, imp))))"

text \<open>
  Modelled from the spec: \<^verbatim>\<open>schema.create_dotted_revnos\<close> is not part of the sources.
  \<open>dotted_revno\<close> has \<open>UNIQUE(tip, merged)\<close> (section 4.1); the rows are inserted one
  after the other, and the first row whose tip and merged revision are already in the
  table raises \<^verbatim>\<open>IntegrityError\<close>. The result is the table as the failed call leaves it.
\<close>

fun create_dotted_revnos :: "dotted_row list \<Rightarrow> store \<Rightarrow> error option \<times> store" where
  "create_dotted_revnos [] st = (None, st)"
| "create_dotted_revnos ((t, m, r, e, md, di) # rows) st =
     (if \<exists>(t', m', r', e', md', di') \<in> set (t_dotted_revno st). t' = t \<and> m' = m
      then (Some IntegrityError, st)
      else create_dotted_revnos rows (st\<lparr>t_dotted_revno := t_dotted_revno st @ [(t, m, r, e, md, di)]\<rparr>))"

text \<open>
  \<^verbatim>\<open>Importer._insert_nodes\<close>: one row for each node, all with the given tip, \<open>dist\<close>
  counting from 0. \<^verbatim>\<open>IntegrityError\<close> is caught and answered with \<^verbatim>\<open>False\<close>.
\<close>

definition revno_entries :: "db_id \<Rightarrow> ms_node list \<Rightarrow> db_id list \<Rightarrow> dotted_row list" where
  "revno_entries tip_db_id nodes db_ids =
     map (\<lambda>(dist, node, db_id).
            (tip_db_id, db_id, revno_str (ms_revno node), ms_end_of_merge node,
             ms_merge_depth node, dist))
       (enumerate 0 (zip nodes db_ids))"

definition insert_nodes :: "rev_id \<Rightarrow> ms_node list \<Rightarrow> importer \<Rightarrow> error + (bool \<times> importer)" where
  "insert_nodes tip_rev_id nodes imp =
     (case i_rev_id_to_db_id imp tip_rev_id of
        None \<Rightarrow> Inl KeyError
      | Some tip_db_id \<Rightarrow>
          (case lookup_all (i_rev_id_to_db_id imp) (map ms_key nodes) of
             Inl e \<Rightarrow> Inl e
           | Inr db_ids \<Rightarrow>
               (case create_dotted_revnos (revno_entries tip_db_id nodes db_ids) (i_store imp) of
                  (None, st') \<Rightarrow> Inr (True, imp\<lparr>i_store := st'\<rparr>)
                | (Some e, st') \<Rightarrow> Inr (False, imp\<lparr>i_store := st'\<rparr>))))"

text \<open>
  The \<^verbatim>\<open>for idx, node in enumerate(merge_sorted)\<close> loop of \<^verbatim>\<open>_import_tip\<close>. The nodes
  from one mainline revision up to the next are inserted with that mainline revision
  as their tip. When an insertion answers \<^verbatim>\<open>False\<close> the loop is left with
  \<^verbatim>\<open>new_nodes\<close> empty. The result is \<^verbatim>\<open>last_mainline_rev_id\<close>, \<^verbatim>\<open>new_nodes\<close> and the
  importer.
\<close>

fun import_nodes ::
  "ms_node list \<Rightarrow> rev_id option \<Rightarrow> ms_node list \<Rightarrow> importer \<Rightarrow>
   error + (rev_id option \<times> ms_node list \<times> importer)" where
  "import_nodes [] last_mainline_rev_id new_nodes imp = Inr (last_mainline_rev_id, new_nodes, imp)"
| "import_nodes (node # nodes) last_mainline_rev_id new_nodes imp =
     (case last_mainline_rev_id of
        None \<Rightarrow>
          if new_nodes \<noteq> [] then Inl AssertionError
          else if ms_merge_depth node \<noteq> 0 then Inl AssertionError
          else import_nodes nodes (Some (ms_key node)) [node] imp
      | Some l \<Rightarrow>
          if ms_merge_depth node = 0 then
            (case insert_nodes l new_nodes imp of
               Inl e \<Rightarrow> Inl e
             | Inr (inserted, imp') \<Rightarrow>
                 if \<not> inserted then Inr (Some l, [], imp')
                 else import_nodes nodes (Some (ms_key node)) [node] imp')
          else import_nodes nodes last_mainline_rev_id (new_nodes @ [node]) imp)"

text \<open>\<^verbatim>\<open>Importer._build_one_mainline\<close>, from the revision id of the head.\<close>

definition build_one_mainline :: "rev_id \<Rightarrow> importer \<Rightarrow> (error + importer) option" where
  "build_one_mainline head_rev_id imp =
     (case ensure_revisions [head_rev_id] imp of
        Inl e \<Rightarrow> Some (Inl e)
      | Inr imp1 \<Rightarrow>
          (case i_rev_id_to_db_id imp1 head_rev_id of
             None \<Rightarrow> Some (Inl KeyError)
           | Some cur_db_id \<Rightarrow>
               (case build_one_mainline_db (i_store imp1) cur_db_id of
                  None \<Rightarrow> None
                | Some (Inl e) \<Rightarrow> Some (Inl e)
                | Some (Inr st') \<Rightarrow> Some (Inr (imp1\<lparr>i_store := st'\<rparr>)))))"

text \<open>
  The part of \<^verbatim>\<open>_import_tip\<close> after the merge-sorted list is there: the loop, the
  insertion of the nodes that are left (its answer is not looked at), and the mainline
  ranges of the tip.
\<close>

definition import_merge_sorted :: "rev_id \<Rightarrow> ms_node list \<Rightarrow> importer \<Rightarrow> (error + importer) option" where
  "import_merge_sorted tip_revision_id merge_sorted imp =
     (case import_nodes merge_sorted None [] imp of
        Inl e \<Rightarrow> Some (Inl e)
      | Inr (last_mainline_rev_id, new_nodes, imp1) \<Rightarrow>
          (case (if new_nodes = [] then Inr imp1
                 else (case last_mainline_rev_id of
                         None \<Rightarrow> Inl AssertionError
                       | Some l \<Rightarrow>
                           (case insert_nodes l new_nodes imp1 of
                              Inl e \<Rightarrow> Inl e
                            | Inr (inserted, imp2) \<Rightarrow> Inr imp2))) of
             Inl e \<Rightarrow> Some (Inl e)
           | Inr imp3 \<Rightarrow> build_one_mainline tip_revision_id imp3))"

text \<open>\<^verbatim>\<open>Importer._update_parents\<close>, for an importer that is not incremental.\<close>

definition update_parents :: "ms_node list \<Rightarrow> importer \<Rightarrow> error + importer" where
  "update_parents nodes imp =
     (case i_graph imp of
        None \<Rightarrow> Inl AttributeError
      | Some kg \<Rightarrow>
          insert_parent_map
            (fold (\<lambda>n pm. dict_set (ms_key n) (kg_parent_keys kg (ms_key n)) pm) nodes []) imp)"

text \<open>\<^verbatim>\<open>Importer._import_tip\<close>.\<close>

definition import_tip :: "rev_id \<Rightarrow> importer \<Rightarrow> (error + importer) option" where
  "import_tip tip_revision_id imp =
     (case get_merge_sorted_tip tip_revision_id imp of
        None \<Rightarrow> None
      | Some (Inl e) \<Rightarrow> Some (Inl e)
      | Some (Inr (merge_sorted, imp1)) \<Rightarrow>
          (case (if i_incremental imp1 then Inr imp1
                 else (case ensure_revisions (map ms_key merge_sorted) imp1 of
                         Inl e \<Rightarrow> Inl e
                       | Inr imp2 \<Rightarrow> update_parents merge_sorted imp2)) of
             Inl e \<Rightarrow> Some (Inl e)
           | Inr imp3 \<Rightarrow> import_merge_sorted tip_revision_id merge_sorted imp3))"

text \<open>
  \<^verbatim>\<open>Importer.do_import\<close>: nothing for the null revision; otherwise the tip is imported
  and the connection commits. An exception leaves the method before the commit.
\<close>

definition do_import :: "importer \<Rightarrow> (error + importer) option" where
  "do_import imp =
     (if i_branch_tip_rev_id imp = NULL_REVISION then Some (Inr imp)
      else
        (case import_tip (i_branch_tip_rev_id imp) imp of
           None \<Rightarrow> None
         | Some (Inl e) \<Rightarrow> Some (Inl e)
         | Some (Inr imp') \<Rightarrow> Some (Inr (commit imp'))))"

section \<open>Concrete runs and what stepping the mainline leaves alone\<close>

text \<open>Loading rows of the imported mainline does not touch the two stacks, the parents
  seen, the parent map, the ghosts, the interesting revisions or the store.\<close>

definition same_walk :: "sorter \<Rightarrow> sorter \<Rightarrow> bool" where
  "same_walk s s' \<longleftrightarrow>
     s_scheduled_stack s' = s_scheduled_stack s
     \<and> s_depth_first_stack s' = s_depth_first_stack s
     \<and> s_seen_parents s' = s_seen_parents s
     \<and> s_parent_map s' = s_parent_map s
     \<and> s_ghosts s' = s_ghosts s
     \<and> s_interesting_ancestor_ids s' = s_interesting_ancestor_ids s
     \<and> s_store s' = s_store s"

text \<open>The import that \<^verbatim>\<open>Querier._import_tip\<close> runs: a new incremental importer on the
  file, \<^verbatim>\<open>do_import\<close>, and what the file holds afterwards.\<close>

definition incremental_import :: "repository \<Rightarrow> store \<Rightarrow> rev_id \<Rightarrow> (error + store) option" where
  "incremental_import repo st tip =
     (case do_import (new_importer st repo None tip True) of
        None \<Rightarrow> None
      | Some (Inl e) \<Rightarrow> Some (Inl e)
      | Some (Inr imp) \<Rightarrow> Some (Inr (i_committed imp)))"

text \<open>The sorter of an incremental import when \<^verbatim>\<open>_compute_merge_sort\<close> has emptied
  its stacks (\<open>prepared_sorter\<close>), and after the first push and \<open>n\<close> turns of the loop
  (\<open>sorter_at\<close>).\<close>

fun merge_sort_steps :: "nat \<Rightarrow> sorter \<Rightarrow> sorter option" where
  "merge_sort_steps 0 s = Some s"
| "merge_sort_steps (Suc n) s =
     (case merge_sort_step s of Some (Inr s') \<Rightarrow> merge_sort_steps n s' | _ \<Rightarrow> None)"

definition prepared_sorter :: "repository \<Rightarrow> store \<Rightarrow> rev_id \<Rightarrow> sorter option" where
  "prepared_sorter repo st tip =
     (case update_ancestry tip (new_importer st repo None tip True) of
        Some (Inr imp1) \<Rightarrow>
          (case ensure_revisions [tip] imp1 of
             Inr imp2 \<Rightarrow>
               (case i_rev_id_to_db_id imp2 tip of
                  Some tip_db_id \<Rightarrow>
                    (case find_interesting_ancestry
                            (new_sorter (i_store imp2) (i_db_parent_map imp2) tip_db_id) of
                       Some (Inr s1) \<Rightarrow>
                         Some (s1\<lparr>s_depth_first_stack := [], s_scheduled_stack := [],
                                   s_seen_parents := {}\<rparr>)
                     | _ \<Rightarrow> None)
                | None \<Rightarrow> None)
           | Inl e \<Rightarrow> None)
      | _ \<Rightarrow> None)"

definition sorter_at :: "repository \<Rightarrow> store \<Rightarrow> rev_id \<Rightarrow> nat \<Rightarrow> sorter option" where
  "sorter_at repo st tip n =
     (case prepared_sorter repo st tip of
        None \<Rightarrow> None
      | Some s1 \<Rightarrow>
          (case push_node (s_tip_db_id s1) 0 s1 of
             Inr s2 \<Rightarrow> merge_sort_steps n s2
           | Inl e \<Rightarrow> None))"

text \<open>A history of two revisions, \<open>B\<close> on top of the root \<open>A\<close>; the store after \<open>A\<close> was
  imported; and the sorter of the import of \<open>B\<close> when \<open>B\<close> is about to be popped.\<close>

definition repo_AB :: repository where
  "repo_AB = map_of [(''B'', [''A'']), (''A'', [''null:''])]"

definition store_A :: store where
  "store_A = \<lparr>t_revision = [(1, ''A'', 1)], t_ghost = [], t_parent = [],
     t_dotted_revno = [(1, 1, ''1'', True, 0, 0)],
     t_mainline_parent_range = [(1, 1, None, 1)], t_mainline_parent = [(1, 1, 0)]\<rparr>"

definition sorter_B :: sorter where
  "sorter_B = the (sorter_at repo_AB store_A ''B'' 1)"

definition node_B :: sort_node where
  "node_B = \<lparr>n_key = 2, n_merge_depth = 0, n_revno = None, n_end_of_merge = None,
     n_left_parent = Some 1, n_left_pending_parent = None, n_pending_parents = [],
     n_is_first = True\<rparr>"

text \<open>A tip \<open>T\<close> whose left-hand parent \<open>G\<close> is a ghost and whose second parent \<open>Z\<close> is
  a root; its sorter before the first push and when \<open>Z\<close> is about to be popped.\<close>

definition repo_ghost_lh :: repository where
  "repo_ghost_lh = map_of [(''T'', [''G'', ''Z'']), (''Z'', [''null:''])]"

definition sorter_T :: sorter where
  "sorter_T = the (prepared_sorter repo_ghost_lh empty_store ''T'')"

definition sorter_Z :: sorter where
  "sorter_Z = the (sorter_at repo_ghost_lh empty_store ''T'' 1)"

definition node_T :: sort_node where
  "node_T = \<lparr>n_key = 3, n_merge_depth = 0, n_revno = None, n_end_of_merge = None,
     n_left_parent = None, n_left_pending_parent = None, n_pending_parents = [],
     n_is_first = True\<rparr>"

definition node_Z :: sort_node where
  "node_Z = \<lparr>n_key = 1, n_merge_depth = 1, n_revno = None, n_end_of_merge = None,
     n_left_parent = None, n_left_pending_parent = None, n_pending_parents = [],
     n_is_first = True\<rparr>"

text \<open>A mainline of two revisions: the tip \<open>U\<close> on top of \<open>T\<close>, whose left-hand parent
  \<open>G\<close> is a ghost and whose second parent \<open>Z\<close> has the root \<open>Y\<close> as parent. Then the
  sorter of the tip \<open>T\<close> of the smaller history above, when \<open>T\<close> is about to be popped.\<close>

definition repo_ghost_mainline :: repository where
  "repo_ghost_mainline =
     map_of [(''U'', [''T'']), (''T'', [''G'', ''Z'']), (''Z'', [''Y'']), (''Y'', [''null:''])]"

definition sorter_T_pop :: sorter where
  "sorter_T_pop = the (sorter_at repo_ghost_lh empty_store ''T'' 2)"

text \<open>\<^verbatim>\<open>Querier.__init__\<close> on a file that holds the given store, for a branch with the
  given tip. Looking up the tip's db id opens the cursor.\<close>

definition new_querier :: "store \<Rightarrow> rev_id \<Rightarrow> querier" where
  "new_querier st tip_rev_id =
     \<lparr>q_store = st, q_cursor = True, q_importer_lock = None,
      q_branch_tip_rev_id = tip_rev_id, q_branch_tip_db_id = select_db_id st tip_rev_id,
      q_tip_is_imported = False, q_trace = []\<rparr>"

text \<open>The store after the incremental imports of \<open>A\<close> and then \<open>B\<close> in \<open>repo_AB\<close>.\<close>

definition store_AB :: store where
  "store_AB =
     \<lparr>t_revision = [(1, ''A'', 1), (2, ''B'', 2)], t_ghost = [], t_parent = [(2, 1, 0)],
      t_dotted_revno = [(1, 1, ''1'', True, 0, 0), (2, 2, ''2'', False, 0, 0)],
      t_mainline_parent_range = [(1, 1, None, 1), (2, 2, None, 2)],
      t_mainline_parent = [(1, 1, 0), (2, 2, 0), (2, 1, 1)]\<rparr>"

definition walk_mainline_result :: "querier \<Rightarrow> (error + db_id list) option" where
  "walk_mainline_result q = map_option fst (walk_mainline q)"

section \<open>What an import stores in \<open>dotted_revno\<close>\<close>

text \<open>
  The calls of \<^verbatim>\<open>_insert_nodes\<close> that \<^verbatim>\<open>_import_tip\<close> makes when none of them answers
  \<^verbatim>\<open>False\<close>, from the point where \<^verbatim>\<open>last_mainline_rev_id\<close> is set: one call for each
  mainline revision, with the nodes from that revision up to the next node of merge
  depth 0.
\<close>

fun insert_calls_of :: "ms_node list \<Rightarrow> rev_id \<Rightarrow> ms_node list \<Rightarrow> (rev_id \<times> ms_node list) list" where
  "insert_calls_of [] l cur = (if cur = [] then [] else [(l, cur)])"
| "insert_calls_of (n # ns) l cur =
     (if ms_merge_depth n = 0 then (l, cur) # insert_calls_of ns (ms_key n) [n]
      else insert_calls_of ns l (cur @ [n]))"

definition ms_groups :: "ms_node list \<Rightarrow> (rev_id \<times> ms_node list) list" where
  "ms_groups ms = (case ms of [] \<Rightarrow> [] | n # ns \<Rightarrow> insert_calls_of ns (ms_key n) [n])"

text \<open>The rows of one group: the tip is the group's mainline revision and \<open>dist\<close>
  counts from 0 within the group. Revision ids are looked up in the importer's map.\<close>

definition group_rows :: "(rev_id \<Rightarrow> db_id option) \<Rightarrow> rev_id \<times> ms_node list \<Rightarrow> dotted_row list" where
  "group_rows m g =
     (case g of (l, nodes) \<Rightarrow> revno_entries (the (m l)) nodes (map (\<lambda>n. the (m (ms_key n))) nodes))"

definition ms_rows :: "(rev_id \<Rightarrow> db_id option) \<Rightarrow> ms_node list \<Rightarrow> dotted_row list" where
  "ms_rows m ms = concat (map (group_rows m) (ms_groups ms))"

definition row_key :: "dotted_row \<Rightarrow> db_id \<times> db_id" where
  "row_key row = (case row of (t, m, r, e, md, di) \<Rightarrow> (t, m))"

text \<open>Running a list of calls of \<^verbatim>\<open>_insert_nodes\<close>, stopping after the first that
  answers \<^verbatim>\<open>False\<close>.\<close>

fun insert_calls :: "(rev_id \<times> ms_node list) list \<Rightarrow> importer \<Rightarrow> error + importer" where
  "insert_calls [] imp = Inr imp"
| "insert_calls ((l, g) # cs) imp =
     (case insert_nodes l g imp of
        Inl e \<Rightarrow> Inl e
      | Inr (inserted, imp') \<Rightarrow> if inserted then insert_calls cs imp' else Inr imp')"

definition fresh_rows :: "dotted_row list \<Rightarrow> store \<Rightarrow> bool" where
  "fresh_rows rows st \<longleftrightarrow>
     distinct (map row_key rows)
     \<and> row_key ` set rows \<inter> row_key ` set (t_dotted_revno st) = {}"

text \<open>The answers of the calls of \<^verbatim>\<open>_insert_nodes\<close>, up to the first \<^verbatim>\<open>False\<close>.\<close>

fun insert_answers :: "(rev_id \<times> ms_node list) list \<Rightarrow> importer \<Rightarrow> bool list" where
  "insert_answers [] imp = []"
| "insert_answers ((l, g) # cs) imp =
     (case insert_nodes l g imp of
        Inl e \<Rightarrow> []
      | Inr (inserted, imp') \<Rightarrow> inserted # (if inserted then insert_answers cs imp' else []))"

text \<open>The importer at the point of \<^verbatim>\<open>_import_tip\<close> where the merge-sorted list is there
  and, when the importer is not incremental, its revisions and parents are recorded.\<close>

definition prepared_importer :: "importer \<Rightarrow> importer option" where
  "prepared_importer imp =
     (case get_merge_sorted_tip (i_branch_tip_rev_id imp) imp of
        Some (Inr (merge_sorted, imp1)) \<Rightarrow>
          (if i_incremental imp1 then Some imp1
           else (case ensure_revisions (map ms_key merge_sorted) imp1 of
                   Inl e \<Rightarrow> None
                 | Inr imp2 \<Rightarrow>
                     (case update_parents merge_sorted imp2 of
                        Inl e \<Rightarrow> None
                      | Inr imp3 \<Rightarrow> Some imp3)))
      | _ \<Rightarrow> None)"

text \<open>A linear history \<open>A\<close>, \<open>B\<close>, \<open>C\<close> as a known graph; its merge sort is the one of the
  reference sorter. \<open>full_import\<close> is an import that is not incremental, and what the
  file holds afterwards.\<close>

definition ms_ABC :: "ms_node list" where
  "ms_ABC =
     [\<lparr>ms_key = ''C'', ms_merge_depth = 0, ms_revno = [3], ms_end_of_merge = False\<rparr>,
      \<lparr>ms_key = ''B'', ms_merge_depth = 0, ms_revno = [2], ms_end_of_merge = False\<rparr>,
      \<lparr>ms_key = ''A'', ms_merge_depth = 0, ms_revno = [1], ms_end_of_merge = True\<rparr>]"

definition graph_ABC :: known_graph where
  "graph_ABC =
     \<lparr>kg_merge_sort = (\<lambda>t. if t = ''C'' then ms_ABC else []),
      kg_parent_keys = (\<lambda>r. if r = ''C'' then [''B''] else if r = ''B'' then [''A''] else []),
      kg_gdfo = map_of [(''A'', 1), (''B'', 2), (''C'', 3)]\<rparr>"

definition full_import :: "known_graph \<Rightarrow> store \<Rightarrow> rev_id \<Rightarrow> (error + store) option" where
  "full_import graph st tip =
     (case do_import (new_importer st (\<lambda>r. None) (Some graph) tip False) of
        None \<Rightarrow> None
      | Some (Inl e) \<Rightarrow> Some (Inl e)
      | Some (Inr imp) \<Rightarrow> Some (Inr (i_committed imp)))"

definition importer_C :: importer where
  "importer_C = the (prepared_importer (new_importer store_AB (\<lambda>r. None) (Some graph_ABC) ''C'' False))"

definition rows_with_tip :: "db_id \<Rightarrow> store \<Rightarrow> dotted_row list" where
  "rows_with_tip t st = filter (\<lambda>row. fst row = t) (t_dotted_revno st)"

definition importer_D :: importer where
  "importer_D = the (prepared_importer (new_importer empty_store repo_merge None ''D'' True))"

definition ms_D :: "ms_node list" where
  "ms_D = (case get_merge_sorted_tip ''D'' (new_importer empty_store repo_merge None ''D'' True) of
             Some (Inr (merge_sorted, imp)) \<Rightarrow> merge_sorted | _ \<Rightarrow> [])"

section \<open>Querier: importing the branch tip on demand\<close>

definition q_is_imported_db_id :: "querier \<Rightarrow> db_id \<Rightarrow> bool \<times> querier" where
  "q_is_imported_db_id q tip_db_id = (is_imported_db_id (q_store q) tip_db_id, q_get_cursor q)"

text \<open>\<^verbatim>\<open>Querier.close\<close>.\<close>

definition q_close :: "querier \<Rightarrow> querier" where
  "q_close q = q\<lparr>q_cursor := False\<rparr>"

text \<open>Acquiring the importer lock, when one was given: a lock that is held is waited
  for, which in the model is not returning. Releasing it is the \<^verbatim>\<open>finally\<close> clause of
  \<^verbatim>\<open>_import_tip\<close>.\<close>

definition lock_acquire :: "querier \<Rightarrow> querier option" where
  "lock_acquire q =
     (case q_importer_lock q of
        None \<Rightarrow> Some q
      | Some held \<Rightarrow>
          if held then None
          else Some (q\<lparr>q_importer_lock := Some True, q_trace := q_trace q @ [LockAcquire]\<rparr>))"

definition lock_release :: "querier \<Rightarrow> querier" where
  "lock_release q =
     (case q_importer_lock q of
        None \<Rightarrow> q
      | Some held \<Rightarrow> q\<lparr>q_importer_lock := Some False, q_trace := q_trace q @ [LockRelease]\<rparr>)"

text \<open>
  \<^verbatim>\<open>Querier._import_tip\<close>. The repository is the one of \<^verbatim>\<open>self._branch\<close>. An exception
  of the importer leaves through the \<^verbatim>\<open>finally\<close> clause, with nothing committed.
\<close>

definition q_import_tip :: "repository \<Rightarrow> querier \<Rightarrow> (error option \<times> querier) option" where
  "q_import_tip repo q =
     (case lock_acquire (if q_cursor q then q_close q else q) of
        None \<Rightarrow> None
      | Some q1 \<Rightarrow>
          (case incremental_import repo (q_store q1) (q_branch_tip_rev_id q1) of
             None \<Rightarrow> None
           | Some (Inl e) \<Rightarrow>
               Some (Some e, lock_release (q1\<lparr>q_trace := q_trace q1 @ [ImportStart]\<rparr>))
           | Some (Inr st') \<Rightarrow>
               (case q_get_db_id
                       (q1\<lparr>q_store := st', q_cursor := True,
                           q_trace := q_trace q1 @ [ImportStart, ImportDone]\<rparr>)
                       (q_branch_tip_rev_id q1) of
                  (db_id, q2) \<Rightarrow>
                    Some (None, lock_release (q2\<lparr>q_branch_tip_db_id := db_id,
                                                 q_tip_is_imported := True\<rparr>)))))"

text \<open>\<^verbatim>\<open>Querier.ensure_branch_tip\<close>.\<close>

definition ensure_branch_tip :: "repository \<Rightarrow> querier \<Rightarrow> (error option \<times> querier) option" where
  "ensure_branch_tip repo q =
     (let q0 = q\<lparr>q_trace := q_trace q @ [EnsureBranchTip]\<rparr>
      in case q_branch_tip_db_id q0 of
           None \<Rightarrow> q_import_tip repo q0
         | Some tip_db_id \<Rightarrow>
             if q_tip_is_imported q0 then Some (None, q0)
             else (case q_is_imported_db_id q0 tip_db_id of
                     (imported, q1) \<Rightarrow>
                       if imported then Some (None, q1\<lparr>q_tip_is_imported := True\<rparr>)
                       else q_import_tip repo q1))"

section \<open>Querier: the methods that answer from the tables\<close>

definition tip_dotted_rows :: "store \<Rightarrow> db_id \<Rightarrow> dotted_row list" where
  "tip_dotted_rows st tip = filter (\<lambda>row. fst row = tip) (t_dotted_revno st)"

text \<open>
  The join of \<open>dotted_revno\<close> and \<open>mainline_parent\<close> on
  \<^verbatim>\<open>tip_revision = mainline_parent.revision AND mainline_parent.range = ?\<close>. The
  queries do not order it; the model takes the members of the range as they were
  inserted and for each of them its rows as they were inserted, the order that
  \<^verbatim>\<open>_get_merge_sorted_range\<close> relies on.
\<close>

definition range_dotted_rows :: "store \<Rightarrow> nat \<Rightarrow> dotted_row list" where
  "range_dotted_rows st range_key =
     concat (map (\<lambda>(k, d, i). tip_dotted_rows st d)
               (filter (\<lambda>(k, d, i). k = range_key) (t_mainline_parent st)))"

text \<open>The rows that one turn of a loop looks at: those of the range when there is
  one, those of the tip otherwise.\<close>

definition step_rows :: "store \<Rightarrow> nat option \<Rightarrow> db_id \<Rightarrow> dotted_row list" where
  "step_rows st range_key tip =
     (case range_key of None \<Rightarrow> tip_dotted_rows st tip | Some k \<Rightarrow> range_dotted_rows st k)"

definition q_read :: "querier \<Rightarrow> querier" where
  "q_read q = q\<lparr>q_trace := q_trace q @ [ReadRows]\<rparr>"

text \<open>
  The loop over \<^verbatim>\<open>revision_ids\<close> of \<^verbatim>\<open>get_dotted_revnos\<close> and
  \<^verbatim>\<open>get_mainline_where_merged\<close>. The set \<^verbatim>\<open>db_ids\<close> is a list without repetitions and
  the dict \<^verbatim>\<open>db_id_to_rev_id\<close> an association list; a revision id that is not in the
  file gives \<^verbatim>\<open>None\<close>, which is added all the same (the call of the debugger at that
  place is left out).
\<close>

fun lookup_db_ids ::
  "rev_id list \<Rightarrow> querier \<Rightarrow> db_id option list \<Rightarrow> (db_id option \<times> rev_id) list \<Rightarrow>
   (db_id option list \<times> (db_id option \<times> rev_id) list) \<times> querier" where
  "lookup_db_ids [] q db_ids m = ((db_ids, m), q)"
| "lookup_db_ids (r # rs) q db_ids m =
     (case q_get_db_id q r of
        (d, q1) \<Rightarrow> lookup_db_ids rs q1 (List.insert d db_ids) (dict_set d r m))"

text \<open>\<^verbatim>\<open>get_dotted_revnos\<close>: the loop over the rows of one query, and the loop along the
  mainline.\<close>

fun store_revnos ::
  "dotted_row list \<Rightarrow> db_id option list \<Rightarrow> (db_id option \<times> rev_id) list \<Rightarrow>
   (rev_id \<times> int list) list \<Rightarrow> error + (db_id option list \<times> (rev_id \<times> int list) list)" where
  "store_revnos [] db_ids m revnos = Inr (db_ids, revnos)"
| "store_revnos ((t, d, revno, e, md, di) # rows) db_ids m revnos =
     (case map_of m (Some d) of
        None \<Rightarrow> Inl KeyError
      | Some rev_id \<Rightarrow>
          (case parse_revno revno of
             None \<Rightarrow> Inl ValueError
           | Some dotted \<Rightarrow>
               store_revnos rows (removeAll (Some d) db_ids) m (dict_set rev_id dotted revnos)))"

partial_function (option) get_dotted_revnos_loop ::
  "querier \<Rightarrow> db_id option \<Rightarrow> db_id option list \<Rightarrow> (db_id option \<times> rev_id) list \<Rightarrow>
   (rev_id \<times> int list) list \<Rightarrow> ((error + (rev_id \<times> int list) list) \<times> querier) option" where
  "get_dotted_revnos_loop q tip_db_id db_ids m revnos =
     (case tip_db_id of
        None \<Rightarrow> Some (Inr revnos, q)
      | Some tip \<Rightarrow>
          if db_ids = [] then Some (Inr revnos, q)
          else
            (case q_get_range_key_and_tail q tip of
               ((range_key, next_id), q1) \<Rightarrow>
                 (case store_revnos
                         (filter (\<lambda>(t, d, r, e, md, di). Some d \<in> set db_ids)
                            (step_rows (q_store q1) range_key tip))
                         db_ids m revnos of
                    Inl e \<Rightarrow> Some (Inl e, q_read q1)
                  | Inr (db_ids', revnos') \<Rightarrow>
                      get_dotted_revnos_loop (q_read q1) next_id db_ids' m revnos')))"

declare get_dotted_revnos_loop.simps [code]

definition get_dotted_revnos ::
  "repository \<Rightarrow> querier \<Rightarrow> rev_id list \<Rightarrow>
   ((error + (rev_id \<times> int list) list) \<times> querier) option" where
  "get_dotted_revnos repo q revision_ids =
     (case ensure_branch_tip repo q of
        None \<Rightarrow> None
      | Some (Some e, q1) \<Rightarrow> Some (Inl e, q1)
      | Some (None, q1) \<Rightarrow>
          (case q_branch_tip_db_id q1 of
             None \<Rightarrow> Some (Inr [], q_get_cursor q1)
           | Some tip \<Rightarrow>
               (case lookup_db_ids revision_ids (q_get_cursor q1) [] [] of
                  ((db_ids, m), q2) \<Rightarrow> get_dotted_revnos_loop q2 (Some tip) db_ids m [])))"

text \<open>\<^verbatim>\<open>get_revision_ids\<close>: the rows are joined with \<open>revision\<close> on the merged revision.\<close>

definition select_rev_ids :: "store \<Rightarrow> db_id \<Rightarrow> rev_id list" where
  "select_rev_ids st d = map (\<lambda>(d', r, g). r) (filter (\<lambda>(d', r, g). d' = d) (t_revision st))"

fun store_revision_ids ::
  "(rev_id \<times> string) list \<Rightarrow> string list \<Rightarrow> (int list \<times> rev_id) list \<Rightarrow>
   error + (string list \<times> (int list \<times> rev_id) list)" where
  "store_revision_ids [] revno_strs revno_map = Inr (revno_strs, revno_map)"
| "store_revision_ids ((revision_id, revno) # rows) revno_strs revno_map =
     (case parse_revno revno of
        None \<Rightarrow> Inl ValueError
      | Some dotted \<Rightarrow>
          store_revision_ids rows (removeAll revno revno_strs)
            (dict_set dotted revision_id revno_map))"

partial_function (option) get_revision_ids_loop ::
  "querier \<Rightarrow> db_id option \<Rightarrow> string list \<Rightarrow> (int list \<times> rev_id) list \<Rightarrow>
   ((error + (int list \<times> rev_id) list) \<times> querier) option" where
  "get_revision_ids_loop q tip_db_id revno_strs revno_map =
     (case tip_db_id of
        None \<Rightarrow> Some (Inr revno_map, q)
      | Some tip \<Rightarrow>
          if revno_strs = [] then Some (Inr revno_map, q)
          else
            (case q_get_range_key_and_tail q tip of
               ((range_key, next_id), q1) \<Rightarrow>
                 (case store_revision_ids
                         (concat (map (\<lambda>(t, d, r, e, md, di).
                                    map (\<lambda>revision_id. (revision_id, r))
                                      (select_rev_ids (q_store q1) d))
                            (filter (\<lambda>(t, d, r, e, md, di). r \<in> set revno_strs)
                               (step_rows (q_store q1) range_key tip))))
                         revno_strs revno_map of
                    Inl e \<Rightarrow> Some (Inl e, q_read q1)
                  | Inr (revno_strs', revno_map') \<Rightarrow>
                      get_revision_ids_loop (q_read q1) next_id revno_strs' revno_map')))"

declare get_revision_ids_loop.simps [code]

definition get_revision_ids ::
  "repository \<Rightarrow> querier \<Rightarrow> int list list \<Rightarrow>
   ((error + (int list \<times> rev_id) list) \<times> querier) option" where
  "get_revision_ids repo q revnos =
     (case ensure_branch_tip repo q of
        None \<Rightarrow> None
      | Some (Some e, q1) \<Rightarrow> Some (Inl e, q1)
      | Some (None, q1) \<Rightarrow>
          get_revision_ids_loop (q_get_cursor q1) (q_branch_tip_db_id q1)
            (remdups (map revno_str revnos)) [])"

text \<open>\<^verbatim>\<open>get_mainline_where_merged\<close>: the rows are joined with \<open>revision\<close> on the tip.\<close>

fun store_mainline ::
  "(rev_id \<times> db_id) list \<Rightarrow> db_id option list \<Rightarrow> (db_id option \<times> rev_id) list \<Rightarrow>
   (rev_id \<times> rev_id) list \<Rightarrow> error + (db_id option list \<times> (rev_id \<times> rev_id) list)" where
  "store_mainline [] db_ids m res = Inr (db_ids, res)"
| "store_mainline ((mainline_revision_id, merged_db_id) # rows) db_ids m res =
     (case map_of m (Some merged_db_id) of
        None \<Rightarrow> Inl KeyError
      | Some rev_id \<Rightarrow>
          store_mainline rows (removeAll (Some merged_db_id) db_ids) m
            (dict_set rev_id mainline_revision_id res))"

partial_function (option) get_mainline_where_merged_loop ::
  "querier \<Rightarrow> db_id option \<Rightarrow> db_id option list \<Rightarrow> (db_id option \<times> rev_id) list \<Rightarrow>
   (rev_id \<times> rev_id) list \<Rightarrow> ((error + (rev_id \<times> rev_id) list) \<times> querier) option" where
  "get_mainline_where_merged_loop q tip_db_id db_ids m res =
     (case tip_db_id of
        None \<Rightarrow> Some (Inr res, q)
      | Some tip \<Rightarrow>
          if db_ids = [] then Some (Inr res, q)
          else
            (case q_get_range_key_and_tail q tip of
               ((range_key, next_id), q1) \<Rightarrow>
                 (case store_mainline
                         (concat (map (\<lambda>(t, d, r, e, md, di).
                                    map (\<lambda>revision_id. (revision_id, d))
                                      (select_rev_ids (q_store q1) t))
                            (filter (\<lambda>(t, d, r, e, md, di). Some d \<in> set db_ids)
                               (step_rows (q_store q1) range_key tip))))
                         db_ids m res of
                    Inl e \<Rightarrow> Some (Inl e, q_read q1)
                  | Inr (db_ids', res') \<Rightarrow>
                      get_mainline_where_merged_loop (q_read q1) next_id db_ids' m res')))"

declare get_mainline_where_merged_loop.simps [code]

definition get_mainline_where_merged ::
  "repository \<Rightarrow> querier \<Rightarrow> rev_id list \<Rightarrow>
   ((error + (rev_id \<times> rev_id) list) \<times> querier) option" where
  "get_mainline_where_merged repo q revision_ids =
     (case ensure_branch_tip repo q of
        None \<Rightarrow> None
      | Some (Some e, q1) \<Rightarrow> Some (Inl e, q1)
      | Some (None, q1) \<Rightarrow>
          (case q_branch_tip_db_id q1 of
             None \<Rightarrow> Some (Inr [], q1)
           | Some tip \<Rightarrow>
               (case lookup_db_ids revision_ids (q_get_cursor q1) [] [] of
                  ((db_ids, m), q2) \<Rightarrow>
                    get_mainline_where_merged_loop q2 (Some tip) db_ids m [])))"

text \<open>\<^verbatim>\<open>Querier._find_tip_containing\<close>.\<close>

partial_function (option) find_tip_containing_loop ::
  "querier \<Rightarrow> db_id option \<Rightarrow> db_id option \<Rightarrow> (db_id option \<times> querier) option" where
  "find_tip_containing_loop q tip_db_id merged_db_id =
     (case tip_db_id of
        None \<Rightarrow> Some (None, q)
      | Some tip \<Rightarrow>
          if Some tip = merged_db_id then Some (Some tip, q)
          else
            (case q_get_range_key_and_tail q tip of
               ((range_key, next_id), q1) \<Rightarrow>
                 if filter (\<lambda>(t, d, r, e, md, di). Some d = merged_db_id)
                      (step_rows (q_store q1) range_key tip) \<noteq> []
                 then Some (Some tip, q_read q1)
                 else find_tip_containing_loop (q_read q1) next_id merged_db_id))"

declare find_tip_containing_loop.simps [code]

definition find_tip_containing ::
  "querier \<Rightarrow> db_id option \<Rightarrow> db_id option \<Rightarrow> (db_id option \<times> querier) option" where
  "find_tip_containing q tip_db_id merged_db_id =
     find_tip_containing_loop (q_get_cursor q) tip_db_id merged_db_id"

text \<open>
  \<^verbatim>\<open>Querier._get_merge_sorted_range\<close>, with the values it yields collected in a list.
  The rows of a tip are ordered by \<open>dist\<close>; the rows of a range are taken in the order
  of the tables. \<open>emit_rows\<close> is the loop over the rows of one query; its last result
  says whether the stop revision was reached.
\<close>

type_synonym ms_out = "rev_id \<times> nat \<times> int list \<times> bool"

fun emit_rows ::
  "(db_id \<times> rev_id \<times> nat \<times> string \<times> bool) list \<Rightarrow> bool \<Rightarrow> db_id option \<Rightarrow> db_id option \<Rightarrow>
   ms_out list \<Rightarrow> error + (ms_out list \<times> bool \<times> bool)" where
  "emit_rows [] found_start start_db_id stop_db_id out = Inr (out, found_start, False)"
| "emit_rows ((d, r, depth, revno, eom) # rows) found_start start_db_id stop_db_id out =
     (if found_start \<or> Some d = start_db_id then
        if stop_db_id \<noteq> None \<and> Some d = stop_db_id then Inr (out, True, True)
        else
          (case parse_revno revno of
             None \<Rightarrow> Inl ValueError
           | Some dotted \<Rightarrow>
               emit_rows rows True start_db_id stop_db_id (out @ [(r, depth, dotted, eom)]))
      else emit_rows rows False start_db_id stop_db_id out)"

definition merged_rows :: "store \<Rightarrow> nat option \<Rightarrow> db_id \<Rightarrow> (db_id \<times> rev_id \<times> nat \<times> string \<times> bool) list" where
  "merged_rows st range_key tip =
     concat (map (\<lambda>(t, d, r, e, md, di). map (\<lambda>revision_id. (d, revision_id, md, r, e))
                                            (select_rev_ids st d))
               (case range_key of
                  None \<Rightarrow> sort_key (\<lambda>(t, d, r, e, md, di). di) (tip_dotted_rows st tip)
                | Some k \<Rightarrow> range_dotted_rows st k))"

partial_function (option) get_merge_sorted_range_loop ::
  "querier \<Rightarrow> db_id option \<Rightarrow> bool \<Rightarrow> db_id option \<Rightarrow> db_id option \<Rightarrow> ms_out list \<Rightarrow>
   ((error + ms_out list) \<times> querier) option" where
  "get_merge_sorted_range_loop q tip_db_id found_start start_db_id stop_db_id out =
     (case tip_db_id of
        None \<Rightarrow> Some (Inr out, q)
      | Some tip \<Rightarrow>
          (case q_get_range_key_and_tail q tip of
             ((range_key, next_id), q1) \<Rightarrow>
               (case emit_rows (merged_rows (q_store q1) range_key tip)
                       found_start start_db_id stop_db_id out of
                  Inl e \<Rightarrow> Some (Inl e, q_read q1)
                | Inr (out', found_start', stopped) \<Rightarrow>
                    if stopped then Some (Inr out', q_read q1)
                    else get_merge_sorted_range_loop (q_read q1) next_id found_start'
                           start_db_id stop_db_id out')))"

declare get_merge_sorted_range_loop.simps [code]

definition get_merge_sorted_range ::
  "querier \<Rightarrow> db_id option \<Rightarrow> db_id option \<Rightarrow> db_id option \<Rightarrow>
   ((error + ms_out list) \<times> querier) option" where
  "get_merge_sorted_range q tip_db_id start_db_id stop_db_id =
     get_merge_sorted_range_loop (q_get_cursor q) tip_db_id
       (start_db_id = None \<or> start_db_id = tip_db_id) start_db_id stop_db_id []"

text \<open>\<^verbatim>\<open>Querier.iter_merge_sorted_revisions\<close>.\<close>

definition iter_merge_sorted_revisions ::
  "repository \<Rightarrow> querier \<Rightarrow> rev_id option \<Rightarrow> rev_id option \<Rightarrow>
   ((error + ms_out list) \<times> querier) option" where
  "iter_merge_sorted_revisions repo q start_revision_id stop_revision_id =
     (case ensure_branch_tip repo q of
        None \<Rightarrow> None
      | Some (Some e, q1) \<Rightarrow> Some (Inl e, q1)
      | Some (None, q1) \<Rightarrow>
          (case q_branch_tip_db_id q1 of
             None \<Rightarrow> Some (Inr [], q1)
           | Some tip \<Rightarrow>
               (case (case start_revision_id of
                        None \<Rightarrow> (Some tip, q1)
                      | Some r \<Rightarrow> q_get_db_id q1 r) of
                  (start_db_id, q2) \<Rightarrow>
                    (case (case stop_revision_id of
                             None \<Rightarrow> (None, q2)
                           | Some r \<Rightarrow> q_get_db_id q2 r) of
                       (stop_db_id, q3) \<Rightarrow>
                         (case find_tip_containing q3 (Some tip) start_db_id of
                            None \<Rightarrow> None
                          | Some (tip_db_id, q4) \<Rightarrow>
                              get_merge_sorted_range q4 tip_db_id start_db_id stop_db_id)))))"

text \<open>\<^verbatim>\<open>Querier.walk_ancestry\<close>; the set \<^verbatim>\<open>all_ancestors\<close> is a list without
  repetitions. \<^verbatim>\<open>ensure_branch_tip\<close> is not called.\<close>

partial_function (option) walk_ancestry_loop ::
  "querier \<Rightarrow> db_id option \<Rightarrow> db_id list \<Rightarrow> (db_id list \<times> querier) option" where
  "walk_ancestry_loop q db_id all_ancestors =
     (case db_id of
        None \<Rightarrow> Some (all_ancestors, q)
      | Some d \<Rightarrow>
          (case q_get_range_key_and_tail q d of
             ((range_key, next_id), q1) \<Rightarrow>
               walk_ancestry_loop (q_read q1) next_id
                 (fold List.insert
                    (map (\<lambda>(t, m, r, e, md, di). m) (step_rows (q_store q1) range_key d))
                    all_ancestors)))"

declare walk_ancestry_loop.simps [code]

definition walk_ancestry :: "querier \<Rightarrow> (db_id list \<times> querier) option" where
  "walk_ancestry q =
     (case q_get_db_id q (q_branch_tip_rev_id q) of
        (db_id, q1) \<Rightarrow> walk_ancestry_loop (q_get_cursor q1) db_id [])"

text \<open>The store after the incremental import of \<open>D\<close> in \<open>repo_merge\<close>, and a querier on
  it for a branch whose tip is \<open>C\<close>, with a lock.\<close>

definition store_D :: store where
  "store_D =
     \<lparr>t_revision = [(1, ''A'', 1), (2, ''C'', 2), (3, ''B'', 2), (4, ''D'', 3)], t_ghost = [],
      t_parent = [(2, 1, 0), (3, 1, 0), (4, 2, 1), (4, 3, 0)],
      t_dotted_revno =
        [(4, 4, ''3'', False, 0, 0), (4, 2, ''1.1.1'', True, 1, 1),
         (3, 3, ''2'', False, 0, 0), (1, 1, ''1'', True, 0, 0)],
      t_mainline_parent_range = [(1, 4, None, 3)],
      t_mainline_parent = [(1, 4, 0), (1, 3, 1), (1, 1, 2)]\<rparr>"

definition querier_C :: querier where
  "querier_C = (new_querier store_D ''C'')\<lparr>q_importer_lock := Some False\<rparr>"

text \<open>What a call leaves to look at: its answer, the trace and the file.\<close>

definition outcome :: "('a \<times> querier) option \<Rightarrow> ('a \<times> event list \<times> store) option" where
  "outcome res = map_option (\<lambda>(r, q). (r, q_trace q, q_store q)) res"

text \<open>The events of one import by \<^verbatim>\<open>_import_tip\<close>, given the lock field of the querier.\<close>

definition import_events :: "bool option \<Rightarrow> event list" where
  "import_events lock =
     (case lock of
        None \<Rightarrow> [ImportStart, ImportDone]
      | Some held \<Rightarrow> [LockAcquire, ImportStart, ImportDone, LockRelease])"

text \<open>\<open>reads_only q q'\<close>: from \<open>q\<close> to \<open>q'\<close> nothing was imported and nothing was
  locked; the trace has grown by reads of rows only.\<close>

definition reads_only :: "querier \<Rightarrow> querier \<Rightarrow> bool" where
  "reads_only q q' \<longleftrightarrow>
     q_store q' = q_store q \<and> q_importer_lock q' = q_importer_lock q
     \<and> (\<exists>n. q_trace q' = q_trace q @ replicate n ReadRows)"

section \<open>Theorems\<close>

lemma load_name_revid:
  "load_name ([(''self'', PyObject), (''revision_id'', PyStr revision_id),
               (''cursor'', PyObject)] @ module_scope) ''revid'' = Inl (NameError ''revid'')"
  by (simp add: load_name_def module_scope_def)

lemma load_name_tip_db_id:
  "load_name ([(''self'', PyObject), (''head_db_id'', PyInt (int head_db_id)),
               (''cursor'', PyObject)] @ module_scope) ''tip_db_id'' = Inl (NameError ''tip_db_id'')"
  by (simp add: load_name_def module_scope_def)

lemma get_mainline_range_starting_at_raises:
  "get_mainline_range_starting_at q d = (Inl (NameError ''tip_db_id''), q_get_cursor q)"
  unfolding get_mainline_range_starting_at_def Let_def load_name_tip_db_id
  by simp

lemma get_children_eq:
  "get_children q revision_id = (Inl (NameError ''revid''), q_get_cursor q)"
  unfolding get_children_def Let_def load_name_revid
  by simp

text \<open>
  C10. For every revision id, \<^verbatim>\<open>Querier.get_children\<close> raises \<^verbatim>\<open>NameError\<close> for the
  name \<^verbatim>\<open>revid\<close>: no query is run (nothing is added to the trace, the store is the
  same) and no list of children is returned.
\<close>

theorem get_children_raises_name_error:
  "fst (get_children q revision_id) = Inl (NameError ''revid'')
   \<and> (\<forall>cs. fst (get_children q revision_id) \<noteq> Inr cs)
   \<and> q_trace (snd (get_children q revision_id)) = q_trace q
   \<and> q_store (snd (get_children q revision_id)) = q_store q"
  by (simp add: get_children_eq q_get_cursor_def)

subsection \<open>Mainline ranges\<close>

lemma select_best_range_empty:
  "t_mainline_parent_range st = [] \<Longrightarrow> select_best_range st c = None"
  by (simp add: select_best_range_def)

lemma build_walk_chain:
  "t_mainline_parent_range st = [] \<Longrightarrow> lh_chain st (c # cs) \<Longrightarrow>
   build_walk st (Some c) acc = Some (acc @ c # cs, None)"
proof (induction cs arbitrary: c acc)
  case Nil
  then show ?case
    by (simp add: build_walk.simps [of st "Some c"] build_walk.simps [of st None] select_best_range_empty)
next
  case (Cons d ds)
  from Cons.prems have lh: "select_lh_parent st c = Some d" and ch: "lh_chain st (d # ds)"
    by simp_all
  have "build_walk st (Some d) (acc @ [c]) = Some ((acc @ [c]) @ d # ds, None)"
    using Cons.IH [OF Cons.prems(1) ch] .
  then show ?case
    using Cons.prems(1) lh
    by (simp add: build_walk.simps [of st "Some c"] select_best_range_empty)
qed

lemma insert_range_ranges:
  "insert_range st xs t = Inr st' \<Longrightarrow>
   t_mainline_parent_range st' =
     t_mainline_parent_range st @ [(next_range_key st, hd xs, t, length xs)]"
  by (auto simp: insert_range_def Let_def split: list.splits)

lemma insert_ranges_Nil: "insert_ranges st [] c = Inr st"
  by (simp add: insert_ranges.simps [of st "[]" c])

lemma insert_ranges_count_le:
  "insert_ranges st xs c = Inr st' \<Longrightarrow>
   \<exists>new. t_mainline_parent_range st' = t_mainline_parent_range st @ new
     \<and> (\<forall>r \<in> set new. range_count r \<le> MAINLINE_PARENT_RANGE_LEN)"
proof (induction st xs c rule: insert_ranges.induct)
  case (1 st xs c)
  show ?case
  proof (cases "xs = []")
    case True
    with "1.prems" show ?thesis by (simp add: insert_ranges_Nil)
  next
    case False
    let ?tl = "drop (length xs - MAINLINE_PARENT_RANGE_LEN) xs"
    let ?rest = "take (length xs - MAINLINE_PARENT_RANGE_LEN) xs"
    from False "1.prems" obtain st1 where
      ir: "insert_range st ?tl c = Inr st1" and
      rec: "insert_ranges st1 ?rest (Some (hd ?tl)) = Inr st'"
      by (auto simp: insert_ranges.simps [of st xs c] Let_def split: sum.splits)
    from "1.IH" [OF False refl refl ir rec] obtain new where
      new: "t_mainline_parent_range st' = t_mainline_parent_range st1 @ new"
        "\<forall>r \<in> set new. range_count r \<le> MAINLINE_PARENT_RANGE_LEN"
      by blast
    have len: "length ?tl \<le> MAINLINE_PARENT_RANGE_LEN" by simp
    from insert_range_ranges [OF ir] new len show ?thesis
      by (auto simp: range_count_def)
  qed
qed

lemma insert_ranges_step:
  assumes "xs \<noteq> []"
  shows "insert_ranges st xs c =
     insert_ranges
       (st\<lparr>t_mainline_parent_range :=
             t_mainline_parent_range st @
               [(next_range_key st, xs ! (length xs - MAINLINE_PARENT_RANGE_LEN), c,
                 min (length xs) MAINLINE_PARENT_RANGE_LEN)],
           t_mainline_parent :=
             t_mainline_parent st @
               map (\<lambda>(idx, d). (next_range_key st, d, idx))
                 (enumerate 0 (drop (length xs - MAINLINE_PARENT_RANGE_LEN) xs))\<rparr>)
       (take (length xs - MAINLINE_PARENT_RANGE_LEN) xs)
       (Some (xs ! (length xs - MAINLINE_PARENT_RANGE_LEN)))"
proof -
  let ?k = "length xs - MAINLINE_PARENT_RANGE_LEN"
  from assms have lt: "?k < length xs"
    by (cases xs) (auto simp: MAINLINE_PARENT_RANGE_LEN_def)
  then have ne: "drop ?k xs \<noteq> []" by simp
  have hd: "hd (drop ?k xs) = xs ! ?k" using lt by (simp add: hd_drop_conv_nth)
  have len: "length (drop ?k xs) = min (length xs) MAINLINE_PARENT_RANGE_LEN"
    by (simp add: min_def)
  obtain y ys where d: "drop ?k xs = y # ys" using ne by (cases "drop ?k xs") auto
  with hd have y: "y = xs ! ?k" by simp
  from len d have len': "Suc (length ys) = min (length xs) MAINLINE_PARENT_RANGE_LEN" by simp
  show ?thesis
    using assms
    apply (subst insert_ranges.simps)
    apply (simp only: Let_def if_False d insert_range_def list.case sum.case list.sel)
    apply (simp add: y len' [symmetric])
    done
qed

lemma next_range_key_simps:
  "next_range_key (st\<lparr>t_mainline_parent_range := rs\<rparr>) = Suc (fold max (map fst rs) 0)"
  by (simp add: next_range_key_def)

lemma insert_ranges_250:
  assumes len: "length xs = 250" and fresh: "t_mainline_parent_range st = []"
  shows "\<exists>st'. insert_ranges st xs None = Inr st' \<and>
     t_mainline_parent_range st' =
       [(1, xs ! 150, None, 100), (2, xs ! 50, Some (xs ! 150), 100), (3, xs ! 0, Some (xs ! 50), 50)]"
proof -
  from len have ne: "xs \<noteq> []" by auto
  have ne2: "take 150 xs \<noteq> []" using len by auto
  have ne3: "take 50 xs \<noteq> []" using len by auto
  show ?thesis
    apply (subst insert_ranges_step [OF ne])
    apply (simp add: len MAINLINE_PARENT_RANGE_LEN_def)
    apply (subst insert_ranges_step [OF ne2])
    apply (simp add: len MAINLINE_PARENT_RANGE_LEN_def min_def)
    apply (subst insert_ranges_step [OF ne3])
    apply (simp add: len MAINLINE_PARENT_RANGE_LEN_def min_def insert_ranges_Nil next_range_key_def fresh)
    done
qed

lemma filter_linear_parent:
  "filter (\<lambda>(c', p, i). c' = c \<and> i = 0) (map (\<lambda>i. (Suc i, i, 0::nat)) [Suc 0..<n]) =
     (if 2 \<le> c \<and> c \<le> n then [(c, c - Suc 0, 0)] else [])"
  by (induction n) auto

lemma select_lh_parent_linear:
  "select_lh_parent (linear_store n) c = (if 2 \<le> c \<and> c \<le> n then Some (c - 1) else None)"
proof -
  have tp: "t_parent (linear_store n) = map (\<lambda>i. (Suc i, i, 0)) [Suc 0..<n]"
    by (simp add: linear_store_def)
  show ?thesis
    unfolding select_lh_parent_def tp filter_linear_parent by simp
qed

lemma lh_chain_linear: "k \<le> n \<Longrightarrow> lh_chain (linear_store n) (rev [1..<Suc k])"
proof (induction k)
  case 0
  then show ?case by simp
next
  case (Suc k)
  show ?case
  proof (cases k)
    case 0
    then show ?thesis by (simp add: select_lh_parent_linear)
  next
    case (Suc j)
    with Suc.IH Suc.prems show ?thesis by (simp add: select_lh_parent_linear)
  qed
qed

text \<open>
  C6. Every row that \<^verbatim>\<open>_build_one_mainline\<close> adds to \<open>mainline_parent_range\<close> has a
  count of at most 100. On a store without ranges whose mainline has 250 revisions, it
  adds exactly three ranges, oldest first: the oldest 100 revisions (tail \<open>None\<close>), the
  next 100, and the newest 50 with the tip as head; only the newest range is shorter
  than the maximum.
\<close>

theorem mainline_ranges_chunked:
  "(build_one_mainline_db st head_db_id = Some (Inr st') \<longrightarrow>
      (\<exists>new. t_mainline_parent_range st' = t_mainline_parent_range st @ new
         \<and> (\<forall>r \<in> set new. range_count r \<le> 100)))
   \<and> (t_mainline_parent_range st = [] \<and> lh_chain st cs \<and> length cs = 250 \<longrightarrow>
      (\<exists>st''. build_one_mainline_db st (hd cs) = Some (Inr st'')
         \<and> t_mainline_parent_range st'' =
             [(1, cs ! 150, None, 100), (2, cs ! 50, Some (cs ! 150), 100),
              (3, cs ! 0, Some (cs ! 50), 50)]))"
proof (intro conjI impI)
  assume "build_one_mainline_db st head_db_id = Some (Inr st')"
  then obtain xs c where "insert_ranges st xs c = Inr st'"
    by (auto simp: build_one_mainline_db_def split: option.splits)
  from insert_ranges_count_le [OF this]
  show "\<exists>new. t_mainline_parent_range st' = t_mainline_parent_range st @ new
         \<and> (\<forall>r \<in> set new. range_count r \<le> 100)"
    by (simp add: MAINLINE_PARENT_RANGE_LEN_def)
next
  assume a: "t_mainline_parent_range st = [] \<and> lh_chain st cs \<and> length cs = 250"
  then obtain c cs' where cs: "cs = c # cs'" by (cases cs) auto
  from a cs have "build_walk st (Some c) [] = Some ([] @ c # cs', None)"
    by (intro build_walk_chain) simp_all
  with cs have w: "build_one_mainline_db st (hd cs) = Some (insert_ranges st cs None)"
    by (simp add: build_one_mainline_db_def)
  from a insert_ranges_250 [of cs st] w
  show "\<exists>st''. build_one_mainline_db st (hd cs) = Some (Inr st'')
         \<and> t_mainline_parent_range st'' =
             [(1, cs ! 150, None, 100), (2, cs ! 50, Some (cs ! 150), 100),
              (3, cs ! 0, Some (cs ! 50), 50)]"
    by auto
qed

theorem mainline_ranges_chunked_witness:
  "\<exists>st'. build_one_mainline_db (linear_store 250) 250 = Some (Inr st')
     \<and> t_mainline_parent_range st' =
          [(1, 100, None, 100), (2, 200, Some 100, 100), (3, 250, Some 200, 50)]
     \<and> (\<forall>r \<in> set (t_mainline_parent_range st'). range_count r \<le> 100)"
proof -
  have fresh: "t_mainline_parent_range (linear_store 250) = []"
    by (simp add: linear_store_def empty_store_def)
  have ch: "lh_chain (linear_store 250) (rev [1..<Suc 250])"
    by (rule lh_chain_linear) simp
  have len: "length (rev [1..<Suc 250]) = 250" by simp
  have hd: "hd (rev [1..<Suc 250]) = 250" by (simp add: hd_rev)
  have n150: "rev [1..<Suc 250] ! 150 = 100" by (simp add: rev_nth)
  have n50: "rev [1..<Suc 250] ! 50 = 200" by (simp add: rev_nth)
  have n0: "rev [1..<Suc 250] ! 0 = 250" by (simp add: rev_nth)
  from mainline_ranges_chunked [of "linear_store 250" 250 _ "rev [1..<Suc 250]"] fresh ch len
  obtain st'' where r: "build_one_mainline_db (linear_store 250) 250 = Some (Inr st'')"
    "t_mainline_parent_range st'' =
       [(1, 100, None, 100), (2, 200, Some 100, 100), (3, 250, Some 200, 50)]"
    unfolding hd n150 n50 n0 by blast
  from mainline_ranges_chunked [of "linear_store 250" 250 st'' "[]"] r(1) fresh
  have "\<forall>r \<in> set (t_mainline_parent_range st''). range_count r \<le> 100"
    by auto
  with r show ?thesis by blast
qed

lemma filter_hd_map_of:
  "(case filter (\<lambda>(d, r', g). r' = r) rows of [] \<Rightarrow> None | (d, r', g) # _ \<Rightarrow> Some g)
   = map_of (map (\<lambda>(d, r, g). (r, g)) rows) r"
  by (induction rows) auto

lemma select_gdfo_map: "select_gdfo st r = gdfo_map st r"
  unfolding select_gdfo_def gdfo_map_def by (rule filter_hd_map_of)

lemma rev_ids_dom: "r \<in> (\<lambda>(d, r', g'). r') ` set rows \<longleftrightarrow> map_of (map (\<lambda>(d, r, g). (r, g)) rows) r \<noteq> None"
  by (induction rows) auto

lemma insert_revision_Inr:
  "insert_revision st r g = Inr st' \<Longrightarrow>
   gdfo_map st r = None \<and> st' = st\<lparr>t_revision := t_revision st @ [(next_db_id st, r, g)]\<rparr>"
  by (auto simp: insert_revision_def gdfo_map_def rev_ids_dom split: if_splits)

lemma gdfo_map_append:
  "gdfo_map (st\<lparr>t_revision := t_revision st @ [(d, r, g)]\<rparr>) r' =
     (case gdfo_map st r' of Some g' \<Rightarrow> Some g' | None \<Rightarrow> if r' = r then Some g else None)"
  by (auto simp: gdfo_map_def map_add_def split: option.splits)

lemma map_of_dict_set: "map_of (dict_set k v al) = (map_of al)(k \<mapsto> v)"
  by (induction al) (auto simp: fun_eq_iff)

lemma max_parent_gdfo_Some:
  "max_parent_gdfo known ps m0 = Some m \<Longrightarrow>
   (\<forall>p \<in> set ps. \<exists>g. known p = Some g \<and> g \<le> m) \<and> m0 \<le> m
   \<and> (m = m0 \<or> (\<exists>p \<in> set ps. known p = Some m))"
proof (induction ps arbitrary: m0)
  case Nil
  then show ?case by simp
next
  case (Cons p ps)
  from Cons.prems obtain g where g: "known p = Some g"
    and rec: "max_parent_gdfo known ps (if m0 < g then g else m0) = Some m"
    by (auto split: option.splits)
  from Cons.IH [OF rec] g show ?case
    by (auto split: if_splits)
qed

lemma gdfo_map_row: "(d, r, gd) \<in> set (t_revision st) \<Longrightarrow> gdfo_map st r \<noteq> None"
proof -
  assume "(d, r, gd) \<in> set (t_revision st)"
  then have "r \<in> (\<lambda>(d, r', g'). r') ` set (t_revision st)" by force
  then show ?thesis unfolding gdfo_map_def rev_ids_dom .
qed

lemma fold_fka_parent_children:
  "fold (fka_parent rev_id known) ps (n, a, ch) = (n', a', ch') \<Longrightarrow>
   c \<in> set (ch' p) \<Longrightarrow> c \<in> set (ch p) \<or> (c = rev_id \<and> ps \<noteq> [])"
proof (induction ps arbitrary: n a ch)
  case Nil
  then show ?case by simp
next
  case (Cons q qs)
  obtain n1 a1 ch1 where st: "fka_parent rev_id known q (n, a, ch) = (n1, a1, ch1)"
    by (cases "fka_parent rev_id known q (n, a, ch)") auto
  then have ch1: "ch1 = ch(q := ch q @ [rev_id])"
    by (auto simp: fka_parent_def Let_def split: if_splits)
  from Cons.prems st have "fold (fka_parent rev_id known) qs (n1, a1, ch1) = (n', a', ch')"
    by simp
  from Cons.IH [OF this Cons.prems(2)] ch1 show ?case
    by (auto split: if_splits)
qed

lemma fka_step_inv:
  assumes inv: "fka_inv repo st0 s" and step: "fka_step repo s = Inr s'"
  shows "fka_inv repo st0 s'"
proof -
  let ?rev = "last (fk_needed s)"
  show ?thesis
  proof (cases "map_of (fk_known s) ?rev \<noteq> None")
    case True
    with step have "s' = s\<lparr>fk_needed := butlast (fk_needed s)\<rparr>"
      by (auto simp: fka_step_def Let_def)
    with inv show ?thesis by (simp add: fka_inv_def)
  next
    case unknown: False
    show ?thesis
    proof (cases "select_gdfo (fk_store s) ?rev")
      case (Some g)
      with unknown step have s': "s' = s\<lparr>fk_needed := butlast (fk_needed s),
          fk_known := fk_known s @ [(?rev, g)]\<rparr>"
        by (auto simp: fka_step_def Let_def)
      from Some have "gdfo_map (fk_store s) ?rev = Some g" by (simp add: select_gdfo_map)
      with inv unknown show ?thesis
        unfolding s' fka_inv_def by (auto simp: map_add_def split: option.splits if_splits)
    next
      case None
      show ?thesis
      proof (cases "is_root_or_ghost repo ?rev")
        case True
        then have rg: "repo ?rev = None \<or> repo ?rev = Some NULL_PARENTS"
          by (simp add: is_root_or_ghost_def)
        from unknown None rg step obtain st1 where
          ins: "insert_revision (fk_store s) ?rev 1 = Inr st1"
          by (auto simp: fka_step_def Let_def split: sum.splits)
        from insert_revision_Inr [OF ins] have
          st1: "st1 = (fk_store s)\<lparr>t_revision := t_revision (fk_store s) @ [(next_db_id (fk_store s), ?rev, 1)]\<rparr>"
          by simp
        from unknown None rg step ins have
          rows: "t_revision (fk_store s') = t_revision st1"
          and known: "fk_known s' = fk_known s"
          and ch: "fk_children s' = fk_children s"
          and pm: "map_of (fk_parent_map s') = (map_of (fk_parent_map s))(?rev \<mapsto> [])"
          by (auto simp: fka_step_def Let_def insert_ghost_def map_of_dict_set
              split: sum.splits if_splits option.splits)
        have gm: "gdfo_map (fk_store s') = gdfo_map st1"
          using rows by (simp add: gdfo_map_def)
        from inv obtain new where new: "t_revision (fk_store s) = t_revision st0 @ new"
          "\<forall>(d, r, gd) \<in> set new. gd = 1 \<and> is_root_or_ghost repo r
              \<and> map_of (fk_parent_map s) r = Some []"
          by (auto simp: fka_inv_def)
        have a: "\<exists>new. t_revision (fk_store s') = t_revision st0 @ new
            \<and> (\<forall>(d, r, gd) \<in> set new. gd = 1 \<and> is_root_or_ghost repo r
                  \<and> map_of (fk_parent_map s') r = Some [])"
        proof (intro exI conjI)
          show "t_revision (fk_store s') = t_revision st0 @ (new @ [(next_db_id (fk_store s), ?rev, 1)])"
            unfolding rows st1 using new(1) by simp
          show "\<forall>(d, r, gd) \<in> set (new @ [(next_db_id (fk_store s), ?rev, 1)]).
              gd = 1 \<and> is_root_or_ghost repo r \<and> map_of (fk_parent_map s') r = Some []"
            using new(2) True pm by auto
        qed
        have b: "\<forall>r gd. map_of (fk_known s') r = Some gd \<longrightarrow> gdfo_map (fk_store s') r = Some gd"
          using inv unfolding fka_inv_def known gm st1 by (auto simp: gdfo_map_append)
        have c: "\<forall>p. \<forall>c \<in> set (fk_children s' p). child_ok repo (fk_parent_map s') c"
        proof (intro allI ballI)
          fix p c assume "c \<in> set (fk_children s' p)"
          with inv ch have ok: "child_ok repo (fk_parent_map s) c" by (simp add: fka_inv_def)
          with rg have "c \<noteq> ?rev" by (auto simp: child_ok_def)
          with ok pm show "child_ok repo (fk_parent_map s') c" by (simp add: child_ok_def)
        qed
        from a b c show ?thesis by (simp add: fka_inv_def)
      next
        case False
        then obtain ps where ps: "repo ?rev = Some ps" "ps \<noteq> NULL_PARENTS"
          by (auto simp: is_root_or_ghost_def)
        obtain n' a' ch' where fo: "fold (fka_parent ?rev (fk_known s)) ps
            (butlast (fk_needed s), fk_all_needed s, fk_children s) = (n', a', ch')"
          by (cases "fold (fka_parent ?rev (fk_known s)) ps
            (butlast (fk_needed s), fk_all_needed s, fk_children s)") auto
        from unknown None ps step fo have
          s': "s' = s\<lparr>fk_needed := n', fk_all_needed := a', fk_children := ch',
                     fk_parent_map := dict_set ?rev ps (fk_parent_map s)\<rparr>"
          by (auto simp: fka_step_def Let_def)
        have c: "\<forall>p. \<forall>c \<in> set (ch' p). child_ok repo (dict_set ?rev ps (fk_parent_map s)) c"
        proof (intro allI ballI)
          fix p c assume cin: "c \<in> set (ch' p)"
          from fold_fka_parent_children [OF fo cin]
          consider "c \<in> set (fk_children s p)" | "c = ?rev" "ps \<noteq> []" by blast
          then show "child_ok repo (dict_set ?rev ps (fk_parent_map s)) c"
          proof cases
            case 1
            with inv have "child_ok repo (fk_parent_map s) c" by (simp add: fka_inv_def)
            with ps show ?thesis by (auto simp: child_ok_def map_of_dict_set)
          next
            case 2
            with ps show ?thesis by (simp add: child_ok_def map_of_dict_set)
          qed
        qed
        from inv obtain new where new: "t_revision (fk_store s) = t_revision st0 @ new"
          "\<forall>(d, r, gd) \<in> set new. gd = 1 \<and> is_root_or_ghost repo r
              \<and> map_of (fk_parent_map s) r = Some []"
          by (auto simp: fka_inv_def)
        from None have norow: "gdfo_map (fk_store s) ?rev = None" by (simp add: select_gdfo_map)
        have "\<forall>(d, r, gd) \<in> set new. r \<noteq> ?rev"
        proof (clarify)
          fix d gd assume "(d, ?rev, gd) \<in> set new"
          with new(1) have "(d, ?rev, gd) \<in> set (t_revision (fk_store s))" by simp
          from gdfo_map_row [OF this] norow show False by simp
        qed
        with new have a: "\<exists>new. t_revision (fk_store s) = t_revision st0 @ new
            \<and> (\<forall>(d, r, gd) \<in> set new. gd = 1 \<and> is_root_or_ghost repo r
                  \<and> map_of (dict_set ?rev ps (fk_parent_map s)) r = Some [])"
          by (intro exI [of _ new]) (auto simp: map_of_dict_set)
        from inv a c show ?thesis unfolding s' fka_inv_def by simp
      qed
    qed
  qed
qed

lemma fka_loop_inv:
  assumes ret: "fka_loop repo s = Some (Inr s')" and inv: "fka_inv repo st0 s"
  shows "fka_inv repo st0 s'"
proof -
  have "repo = repo \<longrightarrow> fka_inv repo st0 s \<longrightarrow>
      (\<forall>t. (Inr s' :: error + fka_state) = Inr t \<longrightarrow> fka_inv repo st0 t)"
  proof (rule fka_loop.raw_induct
      [where P = "\<lambda>repo' s y. repo' = repo \<longrightarrow> fka_inv repo st0 s \<longrightarrow>
          (\<forall>t. y = Inr t \<longrightarrow> fka_inv repo st0 t)", OF _ ret])
    fix f repo' s y
    assume IH: "\<And>repo' s y. f repo' s = Some y \<Longrightarrow>
        repo' = repo \<longrightarrow> fka_inv repo st0 s \<longrightarrow> (\<forall>t. y = Inr t \<longrightarrow> fka_inv repo st0 t)"
      and eq: "(if fk_needed s = [] then Some (Inr s)
          else case fka_step repo' s of Inl e \<Rightarrow> Some (Inl e) | Inr s' \<Rightarrow> f repo' s') = Some y"
    show "repo' = repo \<longrightarrow> fka_inv repo st0 s \<longrightarrow> (\<forall>t. y = Inr t \<longrightarrow> fka_inv repo st0 t)"
    proof (intro impI allI)
      fix t
      assume r: "repo' = repo" and i: "fka_inv repo st0 s" and y: "y = Inr t"
      show "fka_inv repo st0 t"
      proof (cases "fk_needed s = []")
        case True
        with eq y i show ?thesis by simp
      next
        case False
        with eq y obtain s1 where st: "fka_step repo' s = Inr s1" and rec: "f repo' s1 = Some (Inr t)"
          by (auto split: sum.splits)
        from fka_step_inv [OF i] st r have "fka_inv repo st0 s1" by simp
        with IH [OF rec] r show ?thesis by simp
      qed
    qed
  qed
  with inv show ?thesis by simp
qed

lemma gdfo_map_ge1:
  "\<forall>(d, r, gd) \<in> set (t_revision st). 1 \<le> gd \<Longrightarrow> gdfo_map st r = Some g \<Longrightarrow> 1 \<le> g"
  by (fastforce simp: gdfo_map_def dest!: map_of_SomeD)

lemma gdfo_row_ok_mono:
  assumes ok: "gdfo_row_ok repo st row"
    and ext: "\<And>r g. gdfo_map st r = Some g \<Longrightarrow> gdfo_map st' r = Some g"
  shows "gdfo_row_ok repo st' row"
proof -
  obtain d r gd where row: "row = (d, r, gd)" by (cases row) auto
  show ?thesis
  proof (cases "is_root_or_ghost repo r")
    case True
    with ok row show ?thesis by (simp add: gdfo_row_ok_def)
  next
    case False
    with ok row obtain ps where ps: "repo r = Some ps" "ps \<noteq> []"
      "\<forall>p \<in> set ps. \<exists>gp. gdfo_map st p = Some gp \<and> gp < gd"
      "gd = 1 + Max ((\<lambda>p. the (gdfo_map st p)) ` set ps)"
      by (auto simp: gdfo_row_ok_def select_gdfo_map)
    from ps(3) ext have same: "\<And>p. p \<in> set ps \<Longrightarrow> gdfo_map st' p = gdfo_map st p"
      by fastforce
    then have "(\<lambda>p. the (gdfo_map st' p)) ` set ps = (\<lambda>p. the (gdfo_map st p)) ` set ps"
      by (intro image_cong) simp_all
    with ps same False row show ?thesis
      by (auto simp: gdfo_row_ok_def select_gdfo_map)
  qed
qed

lemma gdfo_child_inv:
  assumes inv: "gdfo_inv repo pm st0 s" and step: "gdfo_child pm gdfo child s = Inr s'"
    and ok: "child_ok repo pm child"
  shows "gdfo_inv repo pm st0 s'"
proof (cases "map_of (g_known s) child")
  case (Some k)
  with step have "s' = s" by (auto simp: gdfo_child_def split: if_splits)
  with inv show ?thesis by simp
next
  case None
  from ok obtain ps where ps: "repo child = Some ps" "ps \<noteq> NULL_PARENTS" "ps \<noteq> []"
    "map_of pm child = Some ps" by (auto simp: child_ok_def)
  show ?thesis
  proof (cases "max_parent_gdfo (map_of (g_known s)) ps (- 1)")
    case nomax: None
    with None ps step have "s' = s" by (auto simp: gdfo_child_def)
    with inv show ?thesis by simp
  next
    case (Some m)
    let ?st = "g_store s"
    from None ps Some step obtain st1 where
      ins: "insert_revision ?st child (m + 1) = Inr st1" and
      s': "s' = s\<lparr>g_known := g_known s @ [(child, m + 1)], g_store := st1,
                 g_pending := g_pending s @ [(m + 1, child)]\<rparr>"
      by (auto simp: gdfo_child_def Let_def split: sum.splits)
    from insert_revision_Inr [OF ins] have fresh: "gdfo_map ?st child = None"
      and st1: "st1 = ?st\<lparr>t_revision := t_revision ?st @ [(next_db_id ?st, child, m + 1)]\<rparr>"
      by simp_all
    from inv have kn: "\<And>r gd. map_of (g_known s) r = Some gd \<Longrightarrow> gdfo_map ?st r = Some gd"
      and ge1: "\<forall>(d, r, gd) \<in> set (t_revision ?st). 1 \<le> gd"
      by (auto simp: gdfo_inv_def)
    have ext: "\<And>r g. gdfo_map ?st r = Some g \<Longrightarrow> gdfo_map st1 r = Some g"
      unfolding st1 by (simp add: gdfo_map_append)
    have new_child: "gdfo_map st1 child = Some (m + 1)"
      unfolding st1 using fresh by (simp add: gdfo_map_append)
    from max_parent_gdfo_Some [OF Some] have
      allk: "\<forall>p \<in> set ps. \<exists>g. map_of (g_known s) p = Some g \<and> g \<le> m" and
      hit: "m = - 1 \<or> (\<exists>p \<in> set ps. map_of (g_known s) p = Some m)"
      by auto
    have par: "\<forall>p \<in> set ps. \<exists>g. gdfo_map st1 p = Some g \<and> g \<le> m \<and> 1 \<le> g"
    proof
      fix p assume "p \<in> set ps"
      with allk obtain g where g: "map_of (g_known s) p = Some g" "g \<le> m" by blast
      from kn [OF g(1)] have "gdfo_map ?st p = Some g" .
      with ext gdfo_map_ge1 [OF ge1] g show "\<exists>g. gdfo_map st1 p = Some g \<and> g \<le> m \<and> 1 \<le> g"
        by blast
    qed
    from ps(3) obtain p0 where p0: "p0 \<in> set ps" by (cases ps) auto
    with par have m1: "1 \<le> m" by fastforce
    with hit obtain pm' where pm': "pm' \<in> set ps" "map_of (g_known s) pm' = Some m" by auto
    from kn [OF pm'(2)] ext have "gdfo_map st1 pm' = Some m" by blast
    with pm'(1) have mem: "m \<in> (\<lambda>p. the (gdfo_map st1 p)) ` set ps" by force
    have "Max ((\<lambda>p. the (gdfo_map st1 p)) ` set ps) = m"
    proof (rule Max_eqI)
      show "finite ((\<lambda>p. the (gdfo_map st1 p)) ` set ps)" by simp
      show "\<And>y. y \<in> (\<lambda>p. the (gdfo_map st1 p)) ` set ps \<Longrightarrow> y \<le> m"
        using par by fastforce
      show "m \<in> (\<lambda>p. the (gdfo_map st1 p)) ` set ps" by (rule mem)
    qed
    moreover have nr: "\<not> is_root_or_ghost repo child"
      using ps by (simp add: is_root_or_ghost_def)
    ultimately have row_ok: "gdfo_row_ok repo st1 (next_db_id ?st, child, m + 1)"
      using ps par by (fastforce simp: gdfo_row_ok_def select_gdfo_map)
    from inv obtain new where new: "t_revision ?st = t_revision st0 @ new"
      "\<forall>row \<in> set new. gdfo_row_ok repo ?st row \<and> pm_ok repo pm row"
      by (auto simp: gdfo_inv_def)
    have row_pm: "pm_ok repo pm (next_db_id ?st, child, m + 1)"
      using ps \<open>\<not> is_root_or_ghost repo child\<close> by (simp add: pm_ok_def)
    have a: "\<exists>new'. t_revision st1 = t_revision st0 @ new'
        \<and> (\<forall>row \<in> set new'. gdfo_row_ok repo st1 row \<and> pm_ok repo pm row)"
    proof (intro exI conjI)
      show "t_revision st1 = t_revision st0 @ (new @ [(next_db_id ?st, child, m + 1)])"
        unfolding st1 using new(1) by simp
      show "\<forall>row \<in> set (new @ [(next_db_id ?st, child, m + 1)]).
          gdfo_row_ok repo st1 row \<and> pm_ok repo pm row"
        using new(2) row_ok row_pm gdfo_row_ok_mono [OF _ ext] by auto
    qed
    have b: "\<forall>r gd. map_of (g_known s @ [(child, m + 1)]) r = Some gd \<longrightarrow> gdfo_map st1 r = Some gd"
      using kn ext new_child None
      by (auto simp: map_add_def split: option.splits if_splits)
    have c: "\<forall>(d, r, gd) \<in> set (t_revision st1). 1 \<le> gd"
      unfolding st1 using ge1 m1 by auto
    from a b c show ?thesis unfolding s' gdfo_inv_def by simp
  qed
qed

lemma gdfo_children_inv:
  "gdfo_inv repo pm st0 s \<Longrightarrow> gdfo_children pm gdfo cs s = Inr s' \<Longrightarrow>
   \<forall>c \<in> set cs. child_ok repo pm c \<Longrightarrow> gdfo_inv repo pm st0 s'"
proof (induction cs arbitrary: s)
  case Nil
  then show ?case by simp
next
  case (Cons c cs)
  from Cons.prems(2) obtain s1 where c: "gdfo_child pm gdfo c s = Inr s1"
    and rest: "gdfo_children pm gdfo cs s1 = Inr s'"
    by (auto split: sum.splits)
  from gdfo_child_inv [OF Cons.prems(1) c] Cons.prems(3) have "gdfo_inv repo pm st0 s1" by simp
  from Cons.IH [OF this rest] Cons.prems(3) show ?case by simp
qed

lemma gdfo_step_inv:
  assumes inv: "gdfo_inv repo pm st0 s" and step: "gdfo_step children pm s = Inr s'"
    and ch: "\<forall>p. \<forall>c \<in> set (children p). child_ok repo pm c"
  shows "gdfo_inv repo pm st0 s'"
proof -
  obtain gdfo rev_id where l: "last (g_pending s) = (gdfo, rev_id)"
    by (cases "last (g_pending s)") auto
  with step have "gdfo_children pm gdfo (children rev_id) (s\<lparr>g_pending := butlast (g_pending s)\<rparr>) = Inr s'"
    by (simp add: gdfo_step_def)
  moreover from inv have "gdfo_inv repo pm st0 (s\<lparr>g_pending := butlast (g_pending s)\<rparr>)"
    by (simp add: gdfo_inv_def)
  ultimately show ?thesis using ch by (blast intro: gdfo_children_inv)
qed

lemma gdfo_loop_inv:
  assumes ret: "gdfo_loop children pm s = Some (Inr s')" and inv: "gdfo_inv repo pm st0 s"
    and ch: "\<forall>p. \<forall>c \<in> set (children p). child_ok repo pm c"
  shows "gdfo_inv repo pm st0 s'"
proof -
  have "children = children \<longrightarrow> pm = pm \<longrightarrow> gdfo_inv repo pm st0 s \<longrightarrow>
      (\<forall>t. (Inr s' :: error + gdfo_state) = Inr t \<longrightarrow> gdfo_inv repo pm st0 t)"
  proof (rule gdfo_loop.raw_induct
      [where P = "\<lambda>children' pm' s y. children' = children \<longrightarrow> pm' = pm \<longrightarrow> gdfo_inv repo pm st0 s \<longrightarrow>
          (\<forall>t. y = Inr t \<longrightarrow> gdfo_inv repo pm st0 t)", OF _ ret])
    fix f children' pm' s y
    assume IH: "\<And>children' pm' s y. f children' pm' s = Some y \<Longrightarrow>
        children' = children \<longrightarrow> pm' = pm \<longrightarrow> gdfo_inv repo pm st0 s \<longrightarrow>
          (\<forall>t. y = Inr t \<longrightarrow> gdfo_inv repo pm st0 t)"
      and eq: "(if g_pending s = [] then Some (Inr s)
          else case gdfo_step children' pm' s of Inl e \<Rightarrow> Some (Inl e)
               | Inr s' \<Rightarrow> f children' pm' s') = Some y"
    show "children' = children \<longrightarrow> pm' = pm \<longrightarrow> gdfo_inv repo pm st0 s \<longrightarrow>
          (\<forall>t. y = Inr t \<longrightarrow> gdfo_inv repo pm st0 t)"
    proof (intro impI allI)
      fix t
      assume c: "children' = children" and p: "pm' = pm" and i: "gdfo_inv repo pm st0 s"
        and y: "y = Inr t"
      show "gdfo_inv repo pm st0 t"
      proof (cases "g_pending s = []")
        case True
        with eq y i show ?thesis by simp
      next
        case False
        with eq y obtain s1 where st: "gdfo_step children' pm' s = Inr s1"
          and rec: "f children' pm' s1 = Some (Inr t)"
          by (auto split: sum.splits)
        from gdfo_step_inv [OF i _ ch] st c p have "gdfo_inv repo pm st0 s1" by simp
        with IH [OF rec] c p show ?thesis by simp
      qed
    qed
  qed
  with inv show ?thesis by simp
qed

text \<open>
  C4. Let \<^verbatim>\<open>_find_known_ancestors\<close> and \<^verbatim>\<open>_compute_gdfo_and_insert\<close> run to the end
  on a store whose recorded gdfos are at least 1. Then the rows they add to \<open>revision\<close>
  carry gdfo 1 for roots and ghosts and, for every other revision, one more than the
  greatest gdfo of its parents; for every parent edge \<open>(c, p)\<close> of the parent map that is
  inserted next, with \<open>c\<close> newly recorded, \<open>p\<close> is recorded with a smaller gdfo than
  \<open>c\<close>; the gdfo of revisions recorded before is unchanged; and all gdfos are still at
  least 1.
\<close>

theorem gdfo_recorded:
  assumes run: "update_ancestry_gdfo repo st tip = Some (Inr (f, g))"
    and wf: "\<forall>(d, r, gd) \<in> set (t_revision st). 1 \<le> gd"
  shows "\<exists>new. t_revision (g_store g) = t_revision st @ new
     \<and> (\<forall>row \<in> set new. gdfo_row_ok repo (g_store g) row)
     \<and> (\<forall>(d, c, gc) \<in> set new. \<forall>ps. map_of (fk_parent_map f) c = Some ps \<longrightarrow>
           (\<forall>p \<in> set ps. \<exists>gp. select_gdfo (g_store g) p = Some gp \<and> gp < gc))
     \<and> (\<forall>r gd. select_gdfo st r = Some gd \<longrightarrow> select_gdfo (g_store g) r = Some gd)
     \<and> (\<forall>(d, r, gd) \<in> set (t_revision (g_store g)). 1 \<le> gd)"
proof -
  let ?s0 = "\<lparr>fk_needed = [tip], fk_all_needed = (\<lambda>c. [c]) ` set tip, fk_children = (\<lambda>r. []),
      fk_parent_map = [], fk_known = [], fk_store = st\<rparr>"
  from run have fl: "fka_loop repo ?s0 = Some (Inr f)"
    and gl: "gdfo_loop (fk_children f) (fk_parent_map f)
      \<lparr>g_known = fk_known f, g_store = fk_store f,
       g_pending = map (\<lambda>(rev_id, gdfo). (gdfo, rev_id)) (fk_known f)\<rparr> = Some (Inr g)"
    by (auto simp: update_ancestry_gdfo_def find_known_ancestors_def compute_gdfo_and_insert_def
        split: option.splits sum.splits)
  have "fka_inv repo st ?s0" by (simp add: fka_inv_def)
  from fka_loop_inv [OF fl this] have fi: "fka_inv repo st f" .
  then obtain newA where newA: "t_revision (fk_store f) = t_revision st @ newA"
    "\<forall>(d, r, gd) \<in> set newA. gd = 1 \<and> is_root_or_ghost repo r
        \<and> map_of (fk_parent_map f) r = Some []"
    by (auto simp: fka_inv_def)
  let ?g0 = "\<lparr>g_known = fk_known f, g_store = fk_store f,
       g_pending = map (\<lambda>(rev_id, gdfo). (gdfo, rev_id)) (fk_known f)\<rparr>"
  have "gdfo_inv repo (fk_parent_map f) st ?g0"
    unfolding gdfo_inv_def
  proof (intro conjI)
    show "\<exists>new. t_revision (g_store ?g0) = t_revision st @ new
        \<and> (\<forall>row \<in> set new. gdfo_row_ok repo (g_store ?g0) row \<and> pm_ok repo (fk_parent_map f) row)"
      using newA by (intro exI [of _ newA]) (auto simp: gdfo_row_ok_def pm_ok_def)
    show "\<forall>r gd. map_of (g_known ?g0) r = Some gd \<longrightarrow> gdfo_map (g_store ?g0) r = Some gd"
      using fi by (simp add: fka_inv_def)
    show "\<forall>(d, r, gd) \<in> set (t_revision (g_store ?g0)). 1 \<le> gd"
      using wf newA by auto
  qed
  moreover from fi have "\<forall>p. \<forall>c \<in> set (fk_children f p). child_ok repo (fk_parent_map f) c"
    by (simp add: fka_inv_def)
  ultimately have gi: "gdfo_inv repo (fk_parent_map f) st g"
    using gdfo_loop_inv [OF gl] by blast
  then obtain new where new: "t_revision (g_store g) = t_revision st @ new"
    "\<forall>row \<in> set new. gdfo_row_ok repo (g_store g) row \<and> pm_ok repo (fk_parent_map f) row"
    and ge1: "\<forall>(d, r, gd) \<in> set (t_revision (g_store g)). 1 \<le> gd"
    by (auto simp: gdfo_inv_def)
  have edges: "\<forall>(d, c, gc) \<in> set new. \<forall>ps. map_of (fk_parent_map f) c = Some ps \<longrightarrow>
           (\<forall>p \<in> set ps. \<exists>gp. select_gdfo (g_store g) p = Some gp \<and> gp < gc)"
  proof (clarify)
    fix d c gc ps p
    assume row: "(d, c, gc) \<in> set new" and pm: "map_of (fk_parent_map f) c = Some ps"
      and p: "p \<in> set ps"
    from new(2) row have ok: "gdfo_row_ok repo (g_store g) (d, c, gc)"
      and pmok: "pm_ok repo (fk_parent_map f) (d, c, gc)" by auto
    show "\<exists>gp. select_gdfo (g_store g) p = Some gp \<and> gp < gc"
    proof (cases "is_root_or_ghost repo c")
      case True
      with pmok pm p show ?thesis by (simp add: pm_ok_def)
    next
      case False
      with pmok pm have "repo c = Some ps"
        by (auto simp: pm_ok_def is_root_or_ghost_def)
      with ok False p show ?thesis by (auto simp: gdfo_row_ok_def)
    qed
  qed
  have keep: "\<forall>r gd. select_gdfo st r = Some gd \<longrightarrow> select_gdfo (g_store g) r = Some gd"
    using new(1) by (auto simp: select_gdfo_map gdfo_map_def map_add_def split: option.splits)
  from new edges keep ge1 show ?thesis by blast
qed

lemma repo_merge_run:
  "(case update_ancestry_gdfo repo_merge empty_store ''D'' of
      Some (Inr (f, g)) \<Rightarrow>
        t_revision (g_store g) = [(1, ''A'', 1), (2, ''C'', 2), (3, ''B'', 2), (4, ''D'', 3)]
    | _ \<Rightarrow> False)"
  by code_simp

theorem gdfo_recorded_witness:
  "\<exists>f g. update_ancestry_gdfo repo_merge empty_store ''D'' = Some (Inr (f, g))
     \<and> t_revision (g_store g) = [(1, ''A'', 1), (2, ''C'', 2), (3, ''B'', 2), (4, ''D'', 3)]
     \<and> (\<forall>row \<in> set (t_revision (g_store g)). gdfo_row_ok repo_merge (g_store g) row)"
proof -
  from repo_merge_run obtain f g where
    run: "update_ancestry_gdfo repo_merge empty_store ''D'' = Some (Inr (f, g))"
    and rows: "t_revision (g_store g) = [(1, ''A'', 1), (2, ''C'', 2), (3, ''B'', 2), (4, ''D'', 3)]"
    by (auto split: option.splits sum.splits)
  have wf: "\<forall>(d, r, gd) \<in> set (t_revision empty_store). 1 \<le> gd"
    by (simp add: empty_store_def)
  from gdfo_recorded [OF run wf] have
    "\<forall>row \<in> set (t_revision (g_store g)). gdfo_row_ok repo_merge (g_store g) row"
    by (auto simp: empty_store_def)
  with run rows show ?thesis by blast
qed

lemma same_walk_refl: "same_walk s s"
  by (simp add: same_walk_def)

lemma same_walk_trans: "same_walk s s1 \<Longrightarrow> same_walk s1 s2 \<Longrightarrow> same_walk s s2"
  by (simp add: same_walk_def)

subsection \<open>Numbering a popped node\<close>

lemma bump_child_count_fields:
  "s_scheduled_stack (bump_child_count k m s) = s_scheduled_stack s"
  "s_depth_first_stack (bump_child_count k m s) = s_depth_first_stack s"
  "s_seen_parents (bump_child_count k m s) = s_seen_parents s"
  "s_parent_map (bump_child_count k m s) = s_parent_map s"
  "s_ghosts (bump_child_count k m s) = s_ghosts s"
  "s_interesting_ancestor_ids (bump_child_count k m s) = s_interesting_ancestor_ids s"
  "s_store (bump_child_count k m s) = s_store s"
  by (simp_all add: bump_child_count_def split: option.splits)

lemma update_branch_info_same: "update_branch_info r s = Inr s' \<Longrightarrow> same_walk s s'"
  unfolding update_branch_info_def Let_def same_walk_def
  by (auto split: if_splits option.splits list.splits simp: bump_child_count_fields)

lemma update_branch_infos_same: "update_branch_infos rs s = Inr s' \<Longrightarrow> same_walk s s'"
proof (induction rs arbitrary: s)
  case Nil
  then show ?case by (simp add: same_walk_refl)
next
  case (Cons r rs)
  from Cons.prems obtain s1 where a: "update_branch_info r s = Inr s1"
    and b: "update_branch_infos rs s1 = Inr s'"
    by (auto split: sum.splits)
  from update_branch_info_same [OF a] Cons.IH [OF b] show ?case
    by (rule same_walk_trans)
qed

lemma update_info_same: "update_info_from_dotted_revno info s = Inr s1 \<Longrightarrow> same_walk s s1"
proof -
  assume "update_info_from_dotted_revno info s = Inr s1"
  then have "same_walk
      (s\<lparr>s_imported_dotted_revno := map_update_all (s_imported_dotted_revno s) info,
         s_known_dotted := s_known_dotted s \<union> set (map (\<lambda>(d, r, e, md). r) info)\<rparr>) s1"
    unfolding update_info_from_dotted_revno_def by (rule update_branch_infos_same)
  then show ?thesis by (simp add: same_walk_def)
qed

lemma step_mainline_same:
  assumes a: "step_mainline s = Inr s'"
  shows "same_walk s s'"
proof (cases "parse_dotted_rows (select_dotted_for_tip (s_store s) (s_imported_mainline_id s))")
  case (Inl e)
  with a show ?thesis by (simp add: step_mainline_def)
next
  case (Inr info)
  show ?thesis
  proof (cases "update_info_from_dotted_revno info s")
    case (Inl e)
    with a Inr show ?thesis by (simp add: step_mainline_def)
  next
    case s1: (Inr s1)
    let ?res = "case s_imported_mainline_id s1 of None \<Rightarrow> []
        | Some c \<Rightarrow> select_parent_gdfo (s_store s1) (\<lambda>i. i = 0) [c]"
    from update_info_same [OF s1] have sw: "same_walk s s1" .
    show ?thesis
    proof (cases ?res)
      case Nil
      with a Inr s1 have "s' = s1\<lparr>s_imported_mainline_id := None, s_imported_gdfo := Some 0\<rparr>"
        by (simp add: step_mainline_def)
      with sw show ?thesis by (simp add: same_walk_def)
    next
      case (Cons pg rest)
      obtain p g where pg: "pg = (p, g)" by (cases pg) auto
      with a Inr s1 Cons have "s' = s1\<lparr>s_imported_mainline_id := Some p, s_imported_gdfo := Some g,
          s_known_gdfo := (s_known_gdfo s1)(p \<mapsto> g)\<rparr>"
        by (simp add: step_mainline_def)
      with sw show ?thesis by (simp add: same_walk_def)
    qed
  qed
qed

lemma step_to_latest_branch_same:
  assumes ret: "step_to_latest_branch b s = Some (Inr s')"
  shows "same_walk s s'"
proof -
  have "\<forall>t. (Inr s' :: error + sorter) = Inr t \<longrightarrow> same_walk s t"
  proof (rule step_to_latest_branch.raw_induct
      [where P = "\<lambda>b s y. \<forall>t. y = Inr t \<longrightarrow> same_walk s t", OF _ ret])
    fix f b s y
    assume IH: "\<And>b s y. f b s = Some y \<Longrightarrow> \<forall>t. y = Inr t \<longrightarrow> same_walk s t"
      and eq: "(if s_imported_mainline_id s = None then Some (Inr s)
        else if [b] \<in> s_known_dotted s then Some (Inr s)
        else if [b, dict_get (s_revno_to_branch_count s) b 0, 1] \<in> s_known_dotted s then Some (Inr s)
        else case step_mainline s of Inl e \<Rightarrow> Some (Inl e) | Inr s' \<Rightarrow> f b s') = Some y"
    show "\<forall>t. y = Inr t \<longrightarrow> same_walk s t"
    proof (intro allI impI)
      fix t assume y: "y = Inr t"
      show "same_walk s t"
      proof (cases "s_imported_mainline_id s = None \<or> [b] \<in> s_known_dotted s
          \<or> [b, dict_get (s_revno_to_branch_count s) b 0, 1] \<in> s_known_dotted s")
        case True
        with eq y have "t = s" by (auto split: if_splits)
        then show ?thesis by (simp add: same_walk_refl)
      next
        case False
        with eq y obtain s1 where st: "step_mainline s = Inr s1" and rec: "f b s1 = Some (Inr t)"
          by (auto split: sum.splits if_splits)
        from IH [OF rec] have "same_walk s1 t" by simp
        with step_mainline_same [OF st] show ?thesis by (rule same_walk_trans)
      qed
    qed
  qed
  then show ?thesis by simp
qed

lemma first_child_revno_same: "first_child_revno pr s = Inr (revno, s') \<Longrightarrow> same_walk s s'"
  unfolding first_child_revno_def Let_def
  by (auto split: if_splits option.splits simp: same_walk_def)

lemma new_branch_revno_Inr:
  assumes a: "new_branch_revno pr s = Some (Inr (revno, s'))"
  shows "\<exists>t. (if 1 < length pr then step_to_latest_branch (pr ! 0) s else Some (Inr s)) = Some (Inr t)
     \<and> pr \<noteq> []
     \<and> revno = [hd pr, dict_get (s_revno_to_branch_count t) (hd pr) 0 + 1, 1]
     \<and> s' = t\<lparr>s_revno_to_branch_count :=
               (s_revno_to_branch_count t)(hd pr \<mapsto> dict_get (s_revno_to_branch_count t) (hd pr) 0 + 1)\<rparr>"
proof -
  let ?st = "if 1 < length pr then step_to_latest_branch (pr ! 0) s else Some (Inr s)"
  from a obtain t where t: "?st = Some (Inr t)"
    unfolding new_branch_revno_def by (cases ?st) (auto split: sum.splits)
  from a obtain b bs where pr: "pr = b # bs"
    unfolding new_branch_revno_def t by (cases pr) auto
  from a t pr show ?thesis
    unfolding new_branch_revno_def Let_def by auto
qed

lemma new_branch_revno_same:
  assumes a: "new_branch_revno pr s = Some (Inr (revno, s'))"
  shows "same_walk s s'"
proof -
  from new_branch_revno_Inr [OF a] obtain t where
    t: "(if 1 < length pr then step_to_latest_branch (pr ! 0) s else Some (Inr s)) = Some (Inr t)"
    and s': "s' = t\<lparr>s_revno_to_branch_count :=
               (s_revno_to_branch_count t)(hd pr \<mapsto> dict_get (s_revno_to_branch_count t) (hd pr) 0 + 1)\<rparr>"
    by blast
  from t have "same_walk s t"
    by (auto split: if_splits simp: same_walk_refl dest: step_to_latest_branch_same)
  with s' show ?thesis by (simp add: same_walk_def)
qed

lemma new_root_revno_Inr:
  assumes a: "new_root_revno s = Some (Inr (revno, s'))"
  shows "\<exists>t. step_to_latest_branch 0 s = Some (Inr t)
     \<and> revno = (if dict_get (s_revno_to_branch_count t) 0 (- 1) + 1 = 0 then [1]
                else [0, dict_get (s_revno_to_branch_count t) 0 (- 1) + 1, 1])
     \<and> s_revno_to_branch_count s' =
          (s_revno_to_branch_count t)(0 \<mapsto> dict_get (s_revno_to_branch_count t) 0 (- 1) + 1)
     \<and> same_walk t s'"
proof -
  from a obtain t where t: "step_to_latest_branch 0 s = Some (Inr t)"
    unfolding new_root_revno_def
    by (cases "step_to_latest_branch 0 s") (auto split: sum.splits)
  from a show ?thesis
    unfolding new_root_revno_def t Let_def
    by (auto split: if_splits simp: same_walk_def)
qed

lemma new_root_revno_same: "new_root_revno s = Some (Inr (revno, s')) \<Longrightarrow> same_walk s s'"
  by (blast dest: new_root_revno_Inr step_to_latest_branch_same intro: same_walk_trans)

lemma pop_revno_cases:
  assumes "pop_revno node s = Some (Inr (revno, s'))"
  shows "(n_left_parent node = None \<and> new_root_revno s = Some (Inr (revno, s')))
     \<or> (\<exists>p pr e d. n_left_parent node = Some p \<and> s_imported_dotted_revno s p = Some (pr, e, d)
           \<and> (if n_is_first node then first_child_revno pr s = Inr (revno, s')
               else new_branch_revno pr s = Some (Inr (revno, s'))))"
  using assms unfolding pop_revno_def
  by (auto split: option.splits if_splits)

lemma pop_revno_same: "pop_revno node s = Some (Inr (revno, s')) \<Longrightarrow> same_walk s s'"
  by (drule pop_revno_cases)
    (auto split: if_splits dest: new_root_revno_same first_child_revno_same new_branch_revno_same)

lemma pop_node_Inr:
  assumes stk: "s_depth_first_stack s = stk @ [node]" and pop: "pop_node s = Some (Inr s')"
  shows "\<exists>revno s1 eom.
      pop_revno node (s\<lparr>s_depth_first_stack := stk\<rparr>) = Some (Inr (revno, s1))
      \<and> pop_end_of_merge node s1 = Inr eom
      \<and> s_scheduled_stack s' = s_scheduled_stack s @
           [node\<lparr>n_revno := Some revno, n_end_of_merge := Some eom, n_pending_parents := []\<rparr>]
      \<and> s_depth_first_stack s' = stk
      \<and> s_imported_dotted_revno s' =
           (s_imported_dotted_revno s1)(n_key node \<mapsto> (revno, eom, n_merge_depth node))
      \<and> s_revno_to_branch_count s' = s_revno_to_branch_count s1
      \<and> s_branch_to_child_count s' = s_branch_to_child_count s1"
proof -
  let ?s0 = "s\<lparr>s_depth_first_stack := stk\<rparr>"
  from stk have "s_depth_first_stack s \<noteq> []" by simp
  then obtain x xs where ne: "s_depth_first_stack s = x # xs"
    by (cases "s_depth_first_stack s") simp_all
  from stk have l: "last (s_depth_first_stack s) = node" "butlast (s_depth_first_stack s) = stk"
    by simp_all
  have eq: "pop_node s = (case pop_revno node ?s0 of
            None \<Rightarrow> None
          | Some (Inl e) \<Rightarrow> Some (Inl e)
          | Some (Inr (revno, s1)) \<Rightarrow>
              (case pop_end_of_merge node s1 of
                 Inl e \<Rightarrow> Some (Inl e)
               | Inr end_of_merge \<Rightarrow>
                   Some (Inr (s1\<lparr>s_imported_dotted_revno :=
                                   (s_imported_dotted_revno s1)
                                     (n_key node \<mapsto> (revno, end_of_merge, n_merge_depth node)),
                                 s_known_dotted := insert revno (s_known_dotted s1),
                                 s_scheduled_stack :=
                                   s_scheduled_stack s1 @
                                     [node\<lparr>n_revno := Some revno,
                                           n_end_of_merge := Some end_of_merge,
                                           n_pending_parents := []\<rparr>]\<rparr>))))"
    unfolding pop_node_def Let_def l by (simp add: ne)
  from pop obtain revno s1 where pr: "pop_revno node ?s0 = Some (Inr (revno, s1))"
    unfolding eq by (cases "pop_revno node ?s0") (auto split: sum.splits)
  from pop obtain eom where eom: "pop_end_of_merge node s1 = Inr eom"
    unfolding eq by (cases "pop_end_of_merge node s1") (auto simp: pr)
  from pop have s': "s' = s1\<lparr>s_imported_dotted_revno :=
                       (s_imported_dotted_revno s1)(n_key node \<mapsto> (revno, eom, n_merge_depth node)),
                     s_known_dotted := insert revno (s_known_dotted s1),
                     s_scheduled_stack := s_scheduled_stack s1 @
                       [node\<lparr>n_revno := Some revno, n_end_of_merge := Some eom,
                             n_pending_parents := []\<rparr>]\<rparr>"
    unfolding eq by (simp add: pr eom)
  from pop_revno_same [OF pr] have "s_scheduled_stack s1 = s_scheduled_stack s"
    "s_depth_first_stack s1 = stk"
    by (simp_all add: same_walk_def)
  with pr eom s' show ?thesis by simp
qed

lemma first_child_revno_Inr:
  assumes "first_child_revno pr s = Inr (revno, s')"
  shows "(length pr = 1 \<and> revno = [pr ! 0 + 1]) \<or> (3 \<le> length pr \<and> revno = take 2 pr @ [pr ! 2 + 1])"
  using assms unfolding first_child_revno_def Let_def
  by (auto split: if_splits option.splits)

lemma is_first_child_Inr:
  assumes "is_first_child p t = Inr (b, t')"
  shows "b = (p \<notin> s_seen_parents t
            \<and> (\<forall>r e d. s_imported_dotted_revno t p = Some (r, e, d) \<longrightarrow>
                  \<not> (if 1 < length r then r ! 2 else r ! 0)
                      < dict_get (s_branch_to_child_count t)
                          (if 1 < length r then SubBranch (take 2 r) else MainlineBranch) 0))"
proof (cases "p \<in> s_seen_parents t")
  case True
  with assms show ?thesis by (simp add: is_first_child_def)
next
  case False
  show ?thesis
  proof (cases "s_imported_dotted_revno t p")
    case None
    with assms False show ?thesis by (simp add: is_first_child_def Let_def)
  next
    case (Some row)
    obtain r e d where row: "row = (r, e, d)" by (cases row) auto
    show ?thesis
    proof (cases "1 < length r")
      case True
      with assms False Some row show ?thesis
        by (auto simp: is_first_child_def Let_def split: if_splits)
    next
      case short: False
      with assms False Some row obtain m ms where "r = m # ms"
        by (cases r) (auto simp: is_first_child_def Let_def)
      with assms False Some row short show ?thesis
        by (auto simp: is_first_child_def Let_def)
    qed
  qed
qed

text \<open>
  C2. First, \<^verbatim>\<open>_is_first_child\<close> answers true exactly when the parent was not seen
  before in this walk and the loaded revnos hold no later revno of the parent's branch
  (the mainline, or the sub-branch given by the first two components). Second, when
  \<^verbatim>\<open>_pop_node\<close> pops a node whose left-hand parent has a revno of one or three
  components: a first child gets the parent's revno with the last component
  incremented; any other child gets \<open>(base, branch_count + 1, 1)\<close>, where \<open>base\<close> is the
  first component of the parent's revno and \<open>branch_count\<close> is what
  \<^verbatim>\<open>_revno_to_branch_count\<close> holds for \<open>base\<close> (0 when it holds nothing) once the
  imported mainline was stepped to the latest branch of \<open>base\<close>; the new count is stored.
\<close>

theorem pop_node_numbers_child:
  "(is_first_child p t = Inr (b, t') \<longrightarrow>
      b = (p \<notin> s_seen_parents t
           \<and> (\<forall>r e d. s_imported_dotted_revno t p = Some (r, e, d) \<longrightarrow>
                 \<not> (if 1 < length r then r ! 2 else r ! 0)
                     < dict_get (s_branch_to_child_count t)
                         (if 1 < length r then SubBranch (take 2 r) else MainlineBranch) 0)))
   \<and> (s_depth_first_stack s = stk @ [node] \<and> n_left_parent node = Some p
        \<and> s_imported_dotted_revno s p = Some (parent_revno, e, d)
        \<and> (length parent_revno = 1 \<or> length parent_revno = 3)
        \<and> pop_node s = Some (Inr s') \<longrightarrow>
      (\<exists>node'. s_scheduled_stack s' = s_scheduled_stack s @ [node']
         \<and> n_key node' = n_key node
         \<and> (if n_is_first node
             then n_revno node' = Some (butlast parent_revno @ [last parent_revno + 1])
             else (\<exists>u. (if 1 < length parent_revno
                         then step_to_latest_branch (hd parent_revno) (s\<lparr>s_depth_first_stack := stk\<rparr>)
                         else Some (Inr (s\<lparr>s_depth_first_stack := stk\<rparr>))) = Some (Inr u)
                     \<and> n_revno node' =
                         Some [hd parent_revno,
                               dict_get (s_revno_to_branch_count u) (hd parent_revno) 0 + 1, 1]
                     \<and> s_revno_to_branch_count s' (hd parent_revno) =
                         Some (dict_get (s_revno_to_branch_count u) (hd parent_revno) 0 + 1)))))"
proof (intro conjI impI)
  assume "is_first_child p t = Inr (b, t')"
  then show "b = (p \<notin> s_seen_parents t
           \<and> (\<forall>r e d. s_imported_dotted_revno t p = Some (r, e, d) \<longrightarrow>
                 \<not> (if 1 < length r then r ! 2 else r ! 0)
                     < dict_get (s_branch_to_child_count t)
                         (if 1 < length r then SubBranch (take 2 r) else MainlineBranch) 0))"
    by (rule is_first_child_Inr)
next
  let ?s0 = "s\<lparr>s_depth_first_stack := stk\<rparr>"
  assume a: "s_depth_first_stack s = stk @ [node] \<and> n_left_parent node = Some p
        \<and> s_imported_dotted_revno s p = Some (parent_revno, e, d)
        \<and> (length parent_revno = 1 \<or> length parent_revno = 3)
        \<and> pop_node s = Some (Inr s')"
  then have stk: "s_depth_first_stack s = stk @ [node]" and lp: "n_left_parent node = Some p"
    and num: "s_imported_dotted_revno ?s0 p = Some (parent_revno, e, d)"
    and len: "length parent_revno = 1 \<or> length parent_revno = 3"
    and pop: "pop_node s = Some (Inr s')" by simp_all
  from pop_node_Inr [OF stk pop] obtain revno s1 eom where
    pr: "pop_revno node ?s0 = Some (Inr (revno, s1))"
    and sched: "s_scheduled_stack s' = s_scheduled_stack s @
           [node\<lparr>n_revno := Some revno, n_end_of_merge := Some eom, n_pending_parents := []\<rparr>]"
    and rtb: "s_revno_to_branch_count s' = s_revno_to_branch_count s1"
    by blast
  let ?node' = "node\<lparr>n_revno := Some revno, n_end_of_merge := Some eom, n_pending_parents := []\<rparr>"
  from pop_revno_cases [OF pr] lp num have br:
    "if n_is_first node then first_child_revno parent_revno ?s0 = Inr (revno, s1)
     else new_branch_revno parent_revno ?s0 = Some (Inr (revno, s1))"
    by auto
  have "if n_is_first node
        then n_revno ?node' = Some (butlast parent_revno @ [last parent_revno + 1])
        else (\<exists>u. (if 1 < length parent_revno
                    then step_to_latest_branch (hd parent_revno) ?s0
                    else Some (Inr ?s0)) = Some (Inr u)
                \<and> n_revno ?node' =
                    Some [hd parent_revno,
                          dict_get (s_revno_to_branch_count u) (hd parent_revno) 0 + 1, 1]
                \<and> s_revno_to_branch_count s' (hd parent_revno) =
                    Some (dict_get (s_revno_to_branch_count u) (hd parent_revno) 0 + 1))"
  proof (cases "n_is_first node")
    case True
    with br have fc: "first_child_revno parent_revno ?s0 = Inr (revno, s1)" by simp
    from len show ?thesis
    proof
      assume l1: "length parent_revno = 1"
      then obtain x where x: "parent_revno = [x]" by (cases parent_revno) auto
      from first_child_revno_Inr [OF fc] l1 x True show ?thesis by simp
    next
      assume l3: "length parent_revno = 3"
      then obtain x y z where x: "parent_revno = [x, y, z]"
        by (cases parent_revno) (auto simp: length_Suc_conv numeral_3_eq_3)
      from first_child_revno_Inr [OF fc] l3 x True show ?thesis by simp
    qed
  next
    case False
    with br have nb: "new_branch_revno parent_revno ?s0 = Some (Inr (revno, s1))" by simp
    from new_branch_revno_Inr [OF nb] obtain u where
      u: "(if 1 < length parent_revno then step_to_latest_branch (parent_revno ! 0) ?s0
           else Some (Inr ?s0)) = Some (Inr u)"
      and ne: "parent_revno \<noteq> []"
      and rv: "revno = [hd parent_revno, dict_get (s_revno_to_branch_count u) (hd parent_revno) 0 + 1, 1]"
      and s1: "s1 = u\<lparr>s_revno_to_branch_count :=
               (s_revno_to_branch_count u)
                 (hd parent_revno \<mapsto> dict_get (s_revno_to_branch_count u) (hd parent_revno) 0 + 1)\<rparr>"
      by blast
    from ne have hd: "parent_revno ! 0 = hd parent_revno" by (simp add: hd_conv_nth)
    from u rv s1 rtb False show ?thesis unfolding hd by auto
  qed
  with sched show "\<exists>node'. s_scheduled_stack s' = s_scheduled_stack s @ [node']
         \<and> n_key node' = n_key node
         \<and> (if n_is_first node
             then n_revno node' = Some (butlast parent_revno @ [last parent_revno + 1])
             else (\<exists>u. (if 1 < length parent_revno
                         then step_to_latest_branch (hd parent_revno) ?s0
                         else Some (Inr ?s0)) = Some (Inr u)
                     \<and> n_revno node' =
                         Some [hd parent_revno,
                               dict_get (s_revno_to_branch_count u) (hd parent_revno) 0 + 1, 1]
                     \<and> s_revno_to_branch_count s' (hd parent_revno) =
                         Some (dict_get (s_revno_to_branch_count u) (hd parent_revno) 0 + 1)))"
    by (intro exI [of _ ?node']) simp
qed

lemma store_A_imported: "incremental_import repo_AB empty_store ''A'' = Some (Inr store_A)"
  by code_simp

lemma sorter_B_facts:
  "s_depth_first_stack sorter_B = [] @ [node_B]"
  "s_imported_dotted_revno sorter_B 1 = Some ([1], True, 0)"
  "s_scheduled_stack sorter_B = []"
  by code_simp+

lemma sorter_B_pop:
  "(case pop_node sorter_B of Some (Inr s') \<Rightarrow> True | _ \<Rightarrow> False)"
  by code_simp

lemma sorter_B_first:
  "(case is_first_child 1 (new_sorter store_A (\<lambda>d. None) 2) of Inr (b, t) \<Rightarrow> b | _ \<Rightarrow> False)"
  by code_simp

theorem pop_node_numbers_child_witness:
  "\<exists>s' node'. pop_node sorter_B = Some (Inr s') \<and> s_scheduled_stack s' = [node']
     \<and> n_key node' = 2 \<and> n_revno node' = Some [2]
     \<and> (\<exists>t. is_first_child 1 (new_sorter store_A (\<lambda>d. None) 2) = Inr (True, t))"
proof -
  from sorter_B_pop obtain s' where pop: "pop_node sorter_B = Some (Inr s')"
    by (auto split: option.splits sum.splits)
  from sorter_B_first obtain t where
    fc: "is_first_child 1 (new_sorter store_A (\<lambda>d. None) 2) = Inr (True, t)"
    by (auto split: sum.splits)
  have first: "n_is_first node_B" and key: "n_key node_B = 2" and lp: "n_left_parent node_B = Some 1"
    by (simp_all add: node_B_def)
  from pop_node_numbers_child
    [of 1 "new_sorter store_A (\<lambda>d. None) 2" True t sorter_B "[]" node_B "[1]" True 0 s']
    sorter_B_facts pop lp first key
  obtain node' where "s_scheduled_stack s' = [node']" "n_key node' = 2" "n_revno node' = Some [2]"
    by auto
  with pop fc show ?thesis by blast
qed

text \<open>
  C3. The claim that the first mainline revision gets revno \<open>1\<close> and every other new
  root \<open>(0, n, 1)\<close> fails for the tip \<open>T\<close> above, imported into an empty store: \<open>T\<close>
  (db id 3), the only mainline revision, is stored with revno \<open>0.1.1\<close> at merge depth 0,
  and the merged root \<open>Z\<close> (db id 1) with revno \<open>1\<close> at merge depth 1.
\<close>

theorem new_root_first_mainline_counterexample:
  "incremental_import repo_ghost_lh empty_store ''T'' =
     Some (Inr \<lparr>t_revision = [(1, ''Z'', 1), (2, ''G'', 1), (3, ''T'', 2)],
                 t_ghost = [2], t_parent = [(3, 1, 1), (3, 2, 0)],
                 t_dotted_revno = [(3, 3, ''0.1.1'', False, 0, 0), (3, 1, ''1'', True, 1, 1)],
                 t_mainline_parent_range = [(1, 3, None, 2)],
                 t_mainline_parent = [(1, 3, 0), (1, 2, 1)]\<rparr>)"
  by code_simp

lemma push_node_new_root:
  assumes int: "d \<in> set (s_interesting_ancestor_ids s)"
    and gp: "get_parents d s = (parent_ids, s1)"
    and root: "parent_ids = [] \<or> hd parent_ids \<in> set (s_ghosts s1)"
  shows "push_node d md s =
     Inr (s1\<lparr>s_depth_first_stack := s_depth_first_stack s1 @
            [\<lparr>n_key = d, n_merge_depth = md, n_revno = None, n_end_of_merge = None,
              n_left_parent = None, n_left_pending_parent = None,
              n_pending_parents = filter (\<lambda>p. p \<notin> set (s_ghosts s1)) (tl parent_ids),
              n_is_first = True\<rparr>]\<rparr>)"
proof (cases parent_ids)
  case Nil
  with int gp show ?thesis by (simp add: push_node_def)
next
  case (Cons p ps)
  with root have "p \<in> set (s_ghosts s1)" by simp
  with int gp Cons show ?thesis by (simp add: push_node_def)
qed

text \<open>
  C3, amended. A revision that is pushed with a ghost as left-hand parent gets the
  same node as one without parents: no left parent, \<^verbatim>\<open>is_first = True\<close>. When a node
  without left parent is popped, the imported mainline is stepped to the latest
  new-root branch and the next new-root counter \<open>n\<close> is taken: the revno is \<open>(1,)\<close> when
  \<open>n = 0\<close> (nothing is counted for revno 0 yet) and \<open>(0, n, 1)\<close> otherwise, and \<open>n\<close> is
  stored as the new count.
\<close>

theorem new_root_numbering:
  "(d \<in> set (s_interesting_ancestor_ids s) \<and> get_parents d s = (parent_ids, s1)
      \<and> (parent_ids = [] \<or> hd parent_ids \<in> set (s_ghosts s1)) \<longrightarrow>
    push_node d md s =
     Inr (s1\<lparr>s_depth_first_stack := s_depth_first_stack s1 @
            [\<lparr>n_key = d, n_merge_depth = md, n_revno = None, n_end_of_merge = None,
              n_left_parent = None, n_left_pending_parent = None,
              n_pending_parents = filter (\<lambda>p. p \<notin> set (s_ghosts s1)) (tl parent_ids),
              n_is_first = True\<rparr>]\<rparr>))
   \<and> (s_depth_first_stack t = stk @ [node] \<and> n_left_parent node = None
        \<and> pop_node t = Some (Inr t') \<longrightarrow>
      (\<exists>node' u n. step_to_latest_branch 0 (t\<lparr>s_depth_first_stack := stk\<rparr>) = Some (Inr u)
         \<and> n = dict_get (s_revno_to_branch_count u) 0 (- 1) + 1
         \<and> s_scheduled_stack t' = s_scheduled_stack t @ [node']
         \<and> n_key node' = n_key node
         \<and> n_revno node' = Some (if n = 0 then [1] else [0, n, 1])
         \<and> s_revno_to_branch_count t' 0 = Some n))"
proof (intro conjI impI)
  assume "d \<in> set (s_interesting_ancestor_ids s) \<and> get_parents d s = (parent_ids, s1)
      \<and> (parent_ids = [] \<or> hd parent_ids \<in> set (s_ghosts s1))"
  then show "push_node d md s =
     Inr (s1\<lparr>s_depth_first_stack := s_depth_first_stack s1 @
            [\<lparr>n_key = d, n_merge_depth = md, n_revno = None, n_end_of_merge = None,
              n_left_parent = None, n_left_pending_parent = None,
              n_pending_parents = filter (\<lambda>p. p \<notin> set (s_ghosts s1)) (tl parent_ids),
              n_is_first = True\<rparr>]\<rparr>)"
    by (intro push_node_new_root) simp_all
next
  let ?t0 = "t\<lparr>s_depth_first_stack := stk\<rparr>"
  assume a: "s_depth_first_stack t = stk @ [node] \<and> n_left_parent node = None
        \<and> pop_node t = Some (Inr t')"
  then have stk: "s_depth_first_stack t = stk @ [node]" and lp: "n_left_parent node = None"
    and pop: "pop_node t = Some (Inr t')" by simp_all
  from pop_node_Inr [OF stk pop] obtain revno t1 eom where
    pr: "pop_revno node ?t0 = Some (Inr (revno, t1))"
    and sched: "s_scheduled_stack t' = s_scheduled_stack t @
           [node\<lparr>n_revno := Some revno, n_end_of_merge := Some eom, n_pending_parents := []\<rparr>]"
    and rtb: "s_revno_to_branch_count t' = s_revno_to_branch_count t1"
    by blast
  from pop_revno_cases [OF pr] lp have "new_root_revno ?t0 = Some (Inr (revno, t1))" by simp
  from new_root_revno_Inr [OF this] obtain u where
    u: "step_to_latest_branch 0 ?t0 = Some (Inr u)"
    and rv: "revno = (if dict_get (s_revno_to_branch_count u) 0 (- 1) + 1 = 0 then [1]
                else [0, dict_get (s_revno_to_branch_count u) 0 (- 1) + 1, 1])"
    and cnt: "s_revno_to_branch_count t1 =
          (s_revno_to_branch_count u)(0 \<mapsto> dict_get (s_revno_to_branch_count u) 0 (- 1) + 1)"
    by blast
  let ?node' = "node\<lparr>n_revno := Some revno, n_end_of_merge := Some eom, n_pending_parents := []\<rparr>"
  from u sched rv cnt rtb
  show "\<exists>node' u n. step_to_latest_branch 0 ?t0 = Some (Inr u)
         \<and> n = dict_get (s_revno_to_branch_count u) 0 (- 1) + 1
         \<and> s_scheduled_stack t' = s_scheduled_stack t @ [node']
         \<and> n_key node' = n_key node
         \<and> n_revno node' = Some (if n = 0 then [1] else [0, n, 1])
         \<and> s_revno_to_branch_count t' 0 = Some n"
    by (intro exI [of _ ?node'] exI [of _ u]
          exI [of _ "dict_get (s_revno_to_branch_count u) 0 (- 1) + 1"]) simp
qed

lemma sorter_T_facts:
  "3 \<in> set (s_interesting_ancestor_ids sorter_T)"
  "fst (get_parents 3 sorter_T) = [2, 1]"
  "2 \<in> set (s_ghosts (snd (get_parents 3 sorter_T)))"
  "s_depth_first_stack (snd (get_parents 3 sorter_T)) = []"
  by code_simp+

lemma sorter_Z_facts:
  "s_depth_first_stack sorter_Z = [node_T] @ [node_Z]"
  "s_scheduled_stack sorter_Z = []"
  "(case pop_node sorter_Z of Some (Inr s') \<Rightarrow> True | _ \<Rightarrow> False)"
  by code_simp+

theorem new_root_numbering_witness:
  "(\<exists>s'. push_node 3 0 sorter_T = Inr s' \<and> s_depth_first_stack s' = [node_T\<lparr>n_pending_parents := [1]\<rparr>])
   \<and> (\<exists>t' node'. pop_node sorter_Z = Some (Inr t') \<and> s_scheduled_stack t' = [node']
         \<and> n_key node' = 1 \<and> (n_revno node' = Some [1] \<or> (\<exists>n. n_revno node' = Some [0, n, 1])))"
proof
  obtain ps s1 where gp: "get_parents 3 sorter_T = (ps, s1)" by (cases "get_parents 3 sorter_T") auto
  with sorter_T_facts have f: "3 \<in> set (s_interesting_ancestor_ids sorter_T)" "ps = [2, 1]"
    "2 \<in> set (s_ghosts s1)" "s_depth_first_stack s1 = []" by simp_all
  from new_root_numbering [of 3 sorter_T ps s1 0] gp f
  have "push_node 3 0 sorter_T =
     Inr (s1\<lparr>s_depth_first_stack := s_depth_first_stack s1 @
            [\<lparr>n_key = 3, n_merge_depth = 0, n_revno = None, n_end_of_merge = None,
              n_left_parent = None, n_left_pending_parent = None,
              n_pending_parents = filter (\<lambda>p. p \<notin> set (s_ghosts s1)) (tl ps),
              n_is_first = True\<rparr>]\<rparr>)"
    by simp
  moreover have "1 \<notin> set (s_ghosts s1)"
  proof -
    have "1 \<notin> set (s_ghosts (snd (get_parents 3 sorter_T)))" by code_simp
    with gp show ?thesis by simp
  qed
  ultimately show "\<exists>s'. push_node 3 0 sorter_T = Inr s'
      \<and> s_depth_first_stack s' = [node_T\<lparr>n_pending_parents := [1]\<rparr>]"
    using f by (simp add: node_T_def)
next
  from sorter_Z_facts(3) obtain t' where pop: "pop_node sorter_Z = Some (Inr t')"
    by (auto split: option.splits sum.splits)
  have lp: "n_left_parent node_Z = None" and key: "n_key node_Z = 1" by (simp_all add: node_Z_def)
  have "s_depth_first_stack sorter_Z = [node_T] @ [node_Z] \<and> n_left_parent node_Z = None
      \<and> pop_node sorter_Z = Some (Inr t')"
    using sorter_Z_facts(1) lp pop by simp
  from new_root_numbering [THEN conjunct2, rule_format, OF this]
  obtain node' n where n: "s_scheduled_stack t' = s_scheduled_stack sorter_Z @ [node']"
    "n_key node' = n_key node_Z" "n_revno node' = Some (if n = 0 then [1] else [0, n, 1])"
    by blast
  from n(1,2) sorter_Z_facts(2) key have "s_scheduled_stack t' = [node']" "n_key node' = 1"
    by simp_all
  with pop n(3) show "\<exists>t' node'. pop_node sorter_Z = Some (Inr t') \<and> s_scheduled_stack t' = [node']
         \<and> n_key node' = 1 \<and> (n_revno node' = Some [1] \<or> (\<exists>n. n_revno node' = Some [0, n, 1]))"
    by (cases "n = 0") auto
qed

lemma digit_char_not_dot: "d < 10 \<Longrightarrow> digit_char d \<noteq> CHR ''.''"
proof -
  have "\<forall>d \<in> set [0..<10]. digit_char d \<noteq> CHR ''.''" by code_simp
  then show "d < 10 \<Longrightarrow> digit_char d \<noteq> CHR ''.''" by simp
qed

lemma str_nat_no_dot: "CHR ''.'' \<notin> set (str_nat n)"
proof (induction n rule: str_nat.induct)
  case (1 n)
  show ?case
  proof (cases "n < 10")
    case True
    then show ?thesis using digit_char_not_dot [of n] by (subst str_nat.simps) auto
  next
    case False
    have "n mod 10 < 10" by simp
    from digit_char_not_dot [OF this] "1.IH" False show ?thesis
      by (subst str_nat.simps) auto
  qed
qed

lemma str_int_no_dot: "CHR ''.'' \<notin> set (str_int i)"
  by (simp add: str_int_def str_nat_no_dot)

lemma join_dot_no_dot:
  "\<forall>x \<in> set xs. CHR ''.'' \<notin> set x \<Longrightarrow> CHR ''.'' \<notin> set (join_dot xs) \<longleftrightarrow> length xs \<le> 1"
  by (induction xs rule: join_dot.induct) auto

lemma revno_str_no_dot: "CHR ''.'' \<notin> set (revno_str r) \<longleftrightarrow> length r \<le> 1"
  unfolding revno_str_def
  using join_dot_no_dot [of "map str_int r"] by (simp add: str_int_no_dot)

text \<open>
  C5. Importing the tip \<open>U\<close> above into an empty store leaves two rows at merge depth
  0, for \<open>U\<close> (db id 5) and \<open>T\<close> (db id 4), with the revnos \<open>0.1.2\<close> and \<open>0.1.1\<close>: three
  components each. The one-component revnos \<open>2\<close> and \<open>1\<close> go to the merged revisions
  \<open>Z\<close> and \<open>Y\<close> at merge depth 1.
\<close>

theorem mainline_revno_counterexample:
  "incremental_import repo_ghost_mainline empty_store ''U'' =
     Some (Inr \<lparr>t_revision = [(1, ''Y'', 1), (2, ''G'', 1), (3, ''Z'', 2), (4, ''T'', 3), (5, ''U'', 4)],
                 t_ghost = [2],
                 t_parent = [(3, 1, 0), (4, 2, 0), (4, 3, 1), (5, 4, 0)],
                 t_dotted_revno =
                   [(5, 5, ''0.1.2'', False, 0, 0), (4, 4, ''0.1.1'', False, 0, 0),
                    (4, 3, ''2'', False, 1, 1), (4, 1, ''1'', True, 1, 2)],
                 t_mainline_parent_range = [(1, 5, None, 3)],
                 t_mainline_parent = [(1, 5, 0), (1, 4, 1), (1, 2, 2)]\<rparr>)"
  by code_simp

text \<open>
  C5, amended. Whatever its merge depth, a node that \<^verbatim>\<open>_pop_node\<close> numbers gets a
  revno of one or of three components. It has one component, and its revno string no
  dot, exactly in two cases: the node is the first child of a left-hand parent whose
  revno has one component; or it has no left parent and nothing is counted for revno 0
  when it is popped. Hence a mainline revision whose left-hand parent is a ghost gets
  three components when another root was numbered before it, and so do its mainline
  descendants.
\<close>

theorem popped_revno_components:
  assumes stk: "s_depth_first_stack s = stk @ [node]" and pop: "pop_node s = Some (Inr s')"
  shows "\<exists>node' revno. s_scheduled_stack s' = s_scheduled_stack s @ [node']
     \<and> n_key node' = n_key node \<and> n_merge_depth node' = n_merge_depth node
     \<and> n_revno node' = Some revno
     \<and> (length revno = 1 \<or> length revno = 3)
     \<and> (length revno = 1 \<longleftrightarrow>
          (case n_left_parent node of
             Some p \<Rightarrow> n_is_first node
               \<and> (\<exists>pr e d. s_imported_dotted_revno s p = Some (pr, e, d) \<and> length pr = 1)
           | None \<Rightarrow>
               (\<exists>u. step_to_latest_branch 0 (s\<lparr>s_depth_first_stack := stk\<rparr>) = Some (Inr u)
                  \<and> dict_get (s_revno_to_branch_count u) 0 (- 1) = - 1)))
     \<and> (CHR ''.'' \<notin> set (revno_str revno) \<longleftrightarrow> length revno = 1)"
proof -
  let ?s0 = "s\<lparr>s_depth_first_stack := stk\<rparr>"
  from pop_node_Inr [OF stk pop] obtain revno s1 eom where
    pr: "pop_revno node ?s0 = Some (Inr (revno, s1))"
    and sched: "s_scheduled_stack s' = s_scheduled_stack s @
           [node\<lparr>n_revno := Some revno, n_end_of_merge := Some eom, n_pending_parents := []\<rparr>]"
    by blast
  let ?node' = "node\<lparr>n_revno := Some revno, n_end_of_merge := Some eom, n_pending_parents := []\<rparr>"
  let ?cond = "case n_left_parent node of
             Some p \<Rightarrow> n_is_first node
               \<and> (\<exists>pr e d. s_imported_dotted_revno s p = Some (pr, e, d) \<and> length pr = 1)
           | None \<Rightarrow>
               (\<exists>u. step_to_latest_branch 0 ?s0 = Some (Inr u)
                  \<and> dict_get (s_revno_to_branch_count u) 0 (- 1) = - 1)"
  have len: "(length revno = 1 \<or> length revno = 3) \<and> (length revno = 1 \<longleftrightarrow> ?cond)"
  proof (cases "n_left_parent node")
    case None
    with pop_revno_cases [OF pr] have "new_root_revno ?s0 = Some (Inr (revno, s1))" by simp
    from new_root_revno_Inr [OF this] obtain u where
      u: "step_to_latest_branch 0 ?s0 = Some (Inr u)"
      and rv: "revno = (if dict_get (s_revno_to_branch_count u) 0 (- 1) + 1 = 0 then [1]
                else [0, dict_get (s_revno_to_branch_count u) 0 (- 1) + 1, 1])"
      by blast
    from None u rv show ?thesis by (auto split: if_splits)
  next
    case (Some p)
    with pop_revno_cases [OF pr] obtain prv e d where
      num: "s_imported_dotted_revno s p = Some (prv, e, d)"
      and br: "if n_is_first node then first_child_revno prv ?s0 = Inr (revno, s1)
               else new_branch_revno prv ?s0 = Some (Inr (revno, s1))"
      by auto
    show ?thesis
    proof (cases "n_is_first node")
      case True
      with br have "first_child_revno prv ?s0 = Inr (revno, s1)" by simp
      from first_child_revno_Inr [OF this] Some num True show ?thesis by auto
    next
      case False
      with br have "new_branch_revno prv ?s0 = Some (Inr (revno, s1))" by simp
      from new_branch_revno_Inr [OF this] Some False show ?thesis by auto
    qed
  qed
  from len have l13: "length revno = 1 \<or> length revno = 3" and iff: "length revno = 1 \<longleftrightarrow> ?cond"
    by blast+
  from l13 have dot: "CHR ''.'' \<notin> set (revno_str revno) \<longleftrightarrow> length revno = 1"
    unfolding revno_str_no_dot by auto
  have k: "n_key ?node' = n_key node" "n_merge_depth ?node' = n_merge_depth node"
    "n_revno ?node' = Some revno" by simp_all
  show ?thesis
    by (intro exI [of _ ?node'] exI [of _ revno] conjI) (fact sched k l13 iff dot)+
qed

lemma sorter_T_pop_facts:
  "s_depth_first_stack sorter_T_pop = [] @ [node_T]"
  "map n_key (s_scheduled_stack sorter_T_pop) = [1]"
  "(case pop_node sorter_T_pop of
      Some (Inr s') \<Rightarrow> map n_revno (s_scheduled_stack s') = [Some [1], Some [0, 1, 1]]
    | _ \<Rightarrow> False)"
  by code_simp+

theorem popped_revno_components_witness:
  "\<exists>s' node'. pop_node sorter_T_pop = Some (Inr s')
     \<and> last (s_scheduled_stack s') = node' \<and> n_key node' = 3 \<and> n_merge_depth node' = 0
     \<and> n_revno node' = Some [0, 1, 1] \<and> CHR ''.'' \<in> set (revno_str [0, 1, 1])"
proof -
  from sorter_T_pop_facts(3) obtain s' where pop: "pop_node sorter_T_pop = Some (Inr s')"
    and revs: "map n_revno (s_scheduled_stack s') = [Some [1], Some [0, 1, 1]]"
    by (auto split: option.splits sum.splits)
  from popped_revno_components [OF sorter_T_pop_facts(1) pop]
  obtain node' revno where n: "s_scheduled_stack s' = s_scheduled_stack sorter_T_pop @ [node']"
    "n_key node' = n_key node_T" "n_merge_depth node' = n_merge_depth node_T"
    "n_revno node' = Some revno"
    "CHR ''.'' \<notin> set (revno_str revno) \<longleftrightarrow> length revno = 1"
    by blast
  from n(1) have l: "last (s_scheduled_stack s') = node'" by simp
  from revs n(1) have "n_revno node' = Some [0, 1, 1]"
    by (cases "s_scheduled_stack sorter_T_pop") (auto simp: map_eq_Cons_conv)
  with n have "n_revno node' = Some [0, 1, 1]" "CHR ''.'' \<in> set (revno_str [0, 1, 1])"
    by auto
  with pop l n(2,3) show ?thesis by (simp add: node_T_def)
qed

text \<open>
  Claim C7, at an imported tip. After the imports of \<open>A\<close> and \<open>B\<close> the mainline of
  \<open>B\<close> is \<open>B, A\<close> by left-hand parents (db ids 2 and 1), and there is a range with
  head \<open>B\<close>. \<^verbatim>\<open>walk_mainline\<close> does not return that sequence: its first call of
  \<^verbatim>\<open>_get_mainline_range_starting_at\<close> raises \<^verbatim>\<open>NameError\<close>, because the method reads
  \<^verbatim>\<open>tip_db_id\<close> while its parameter is called \<^verbatim>\<open>head_db_id\<close>.
\<close>

theorem walk_mainline_raises_at_imported_tip:
  "incremental_import repo_AB store_A ''B'' = Some (Inr store_AB)
   \<and> lh_parent_walk store_AB (Some 2) [] = Some [2, 1]
   \<and> walk_mainline_result (new_querier store_AB ''B'') = Some (Inl (NameError ''tip_db_id''))"
  by code_simp

lemma create_dotted_revnos_prefix:
  "create_dotted_revnos rows st = (e, st') \<Longrightarrow>
   \<exists>j. st' = st\<lparr>t_dotted_revno := t_dotted_revno st @ take j rows\<rparr>
     \<and> (e = None \<longrightarrow> j = length rows) \<and> (e = None \<or> e = Some IntegrityError)"
proof (induction rows arbitrary: st)
  case Nil
  then show ?case by simp
next
  case (Cons row rows)
  obtain t m r ee md di where row: "row = (t, m, r, ee, md, di)" by (cases row) auto
  show ?case
  proof (cases "\<exists>(t', m', r', e', md', di') \<in> set (t_dotted_revno st). t' = t \<and> m' = m")
    case True
    with Cons.prems row have "e = Some IntegrityError" "st' = st" by auto
    then show ?thesis by (intro exI [of _ 0]) simp
  next
    case False
    let ?st1 = "st\<lparr>t_dotted_revno := t_dotted_revno st @ [(t, m, r, ee, md, di)]\<rparr>"
    from False Cons.prems row have "create_dotted_revnos rows ?st1 = (e, st')" by auto
    from Cons.IH [OF this] obtain j where
      j: "st' = ?st1\<lparr>t_dotted_revno := t_dotted_revno ?st1 @ take j rows\<rparr>"
      "e = None \<longrightarrow> j = length rows" "e = None \<or> e = Some IntegrityError" by blast
    then show ?thesis unfolding row by (intro exI [of _ "Suc j"]) simp
  qed
qed

lemma lookup_all_Inr: "lookup_all m ks = Inr vs \<Longrightarrow> vs = map (\<lambda>k. the (m k)) ks"
  by (induction ks arbitrary: vs) (auto split: option.splits sum.splits)

lemma insert_nodes_Inr:
  assumes "insert_nodes l g imp = Inr (ok, imp')"
  shows "\<exists>j. imp' = imp\<lparr>i_store := (i_store imp)\<lparr>t_dotted_revno :=
            t_dotted_revno (i_store imp) @ take j (group_rows (i_rev_id_to_db_id imp) (l, g))\<rparr>\<rparr>
     \<and> (ok \<longrightarrow> j = length (group_rows (i_rev_id_to_db_id imp) (l, g)))"
proof -
  from assms obtain tip_db_id where tip: "i_rev_id_to_db_id imp l = Some tip_db_id"
    by (auto simp: insert_nodes_def split: option.splits)
  from assms tip obtain db_ids where ids: "lookup_all (i_rev_id_to_db_id imp) (map ms_key g) = Inr db_ids"
    by (auto simp: insert_nodes_def split: sum.splits)
  from lookup_all_Inr [OF ids] have db_ids: "db_ids = map (\<lambda>n. the (i_rev_id_to_db_id imp (ms_key n))) g"
    by (simp add: comp_def)
  obtain e st' where c: "create_dotted_revnos (revno_entries tip_db_id g db_ids) (i_store imp) = (e, st')"
    by (cases "create_dotted_revnos (revno_entries tip_db_id g db_ids) (i_store imp)") auto
  from assms tip ids c have r: "imp' = imp\<lparr>i_store := st'\<rparr>" "ok = (e = None)"
    by (auto simp: insert_nodes_def split: option.splits)
  have rows: "group_rows (i_rev_id_to_db_id imp) (l, g) = revno_entries tip_db_id g db_ids"
    by (simp add: group_rows_def tip db_ids)
  from create_dotted_revnos_prefix [OF c] r rows show ?thesis by auto
qed

lemma lookup_all_error: "lookup_all m ks = Inl e \<Longrightarrow> e = KeyError"
  by (induction ks) (auto split: option.splits sum.splits)

lemma insert_nodes_error: "insert_nodes l g imp = Inl e \<Longrightarrow> e = KeyError"
  by (auto simp: insert_nodes_def dest: lookup_all_error split: option.splits sum.splits prod.splits)

lemma insert_calls_prefix:
  "insert_calls cs imp = Inr imp' \<Longrightarrow>
   \<exists>k. imp' = imp\<lparr>i_store := (i_store imp)\<lparr>t_dotted_revno :=
          t_dotted_revno (i_store imp) @ take k (concat (map (group_rows (i_rev_id_to_db_id imp)) cs))\<rparr>\<rparr>"
proof (induction cs arbitrary: imp)
  case Nil
  then show ?case by simp
next
  case (Cons c cs)
  obtain l g where c: "c = (l, g)" by (cases c) auto
  let ?m = "i_rev_id_to_db_id imp"
  from Cons.prems c obtain ok imp1 where ins: "insert_nodes l g imp = Inr (ok, imp1)"
    and rest: "if ok then insert_calls cs imp1 = Inr imp' else imp' = imp1"
    by (auto split: sum.splits if_splits)
  from insert_nodes_Inr [OF ins] obtain j where
    imp1: "imp1 = imp\<lparr>i_store := (i_store imp)\<lparr>t_dotted_revno :=
            t_dotted_revno (i_store imp) @ take j (group_rows ?m (l, g))\<rparr>\<rparr>"
    and j: "ok \<longrightarrow> j = length (group_rows ?m (l, g))" by blast
  show ?case
  proof (cases ok)
    case False
    with rest imp1 c show ?thesis by (intro exI [of _ "min j (length (group_rows ?m (l, g)))"]) (simp add: min_def)
  next
    case True
    with rest have "insert_calls cs imp1 = Inr imp'" by simp
    from Cons.IH [OF this] obtain k where
      "imp' = imp1\<lparr>i_store := (i_store imp1)\<lparr>t_dotted_revno :=
          t_dotted_revno (i_store imp1) @ take k (concat (map (group_rows (i_rev_id_to_db_id imp1)) cs))\<rparr>\<rparr>"
      by blast
    with imp1 j True c show ?thesis
      by (intro exI [of _ "length (group_rows ?m (l, g)) + k"]) simp
  qed
qed

lemma import_nodes_calls:
  "(case import_nodes ns (Some l) cur imp of
      Inl e \<Rightarrow> Inl e
    | Inr (last', cur', imp1) \<Rightarrow>
        (if cur' = [] then Inr imp1
         else (case last' of
                 None \<Rightarrow> Inl AssertionError
               | Some l' \<Rightarrow>
                   (case insert_nodes l' cur' imp1 of
                      Inl e \<Rightarrow> Inl e
                    | Inr (inserted, imp2) \<Rightarrow> Inr imp2))))
   = insert_calls (insert_calls_of ns l cur) imp"
proof (induction ns arbitrary: l cur imp)
  case Nil
  show ?case by (auto split: sum.splits prod.splits)
next
  case (Cons n ns)
  show ?case
  proof (cases "ms_merge_depth n = 0")
    case False
    with Cons.IH [of l "cur @ [n]" imp] show ?thesis by simp
  next
    case True
    show ?thesis
    proof (cases "insert_nodes l cur imp")
      case (Inl e)
      with True show ?thesis by simp
    next
      case (Inr r)
      obtain ok imp' where r: "r = (ok, imp')" by (cases r) auto
      show ?thesis
      proof (cases ok)
        case False
        with True Inr r show ?thesis by simp
      next
        case ok: True
        with True Inr r Cons.IH [of "ms_key n" "[n]" imp'] show ?thesis by simp
      qed
    qed
  qed
qed

lemma ensure_revisions_dotted:
  "ensure_revisions rs imp = Inr imp' \<Longrightarrow>
   t_dotted_revno (i_store imp') = t_dotted_revno (i_store imp)"
proof (induction rs arbitrary: imp)
  case Nil
  then show ?case by simp
next
  case (Cons r rs)
  show ?case
  proof (cases "i_rev_id_to_db_id imp r \<noteq> None")
    case True
    with Cons.prems have "ensure_revisions rs imp = Inr imp'" by simp
    from Cons.IH [OF this] show ?thesis .
  next
    case False
    show ?thesis
    proof (cases "select_db_id (i_store imp) r")
      case (Some d)
      with False Cons.prems have "ensure_revisions rs
               (imp\<lparr>i_rev_id_to_db_id := (i_rev_id_to_db_id imp)(r \<mapsto> d),
                    i_db_id_to_rev_id := (i_db_id_to_rev_id imp)(d \<mapsto> r)\<rparr>) = Inr imp'"
        by simp
      from Cons.IH [OF this] show ?thesis by simp
    next
      case None
      with False Cons.prems obtain kg g st' where
        "i_graph imp = Some kg" "kg_gdfo kg r = Some g"
        and ins: "insert_revision (i_store imp) r g = Inr st'"
        and rest: "ensure_revisions rs
                     (imp\<lparr>i_store := st',
                          i_rev_id_to_db_id := (i_rev_id_to_db_id imp)(r \<mapsto> next_db_id (i_store imp)),
                          i_db_id_to_rev_id := (i_db_id_to_rev_id imp)(next_db_id (i_store imp) \<mapsto> r)\<rparr>)
                   = Inr imp'"
        by (auto split: option.splits sum.splits)
      from insert_revision_Inr [OF ins] have "t_dotted_revno st' = t_dotted_revno (i_store imp)"
        by simp
      with Cons.IH [OF rest] show ?thesis by simp
    qed
  qed
qed

lemma insert_ranges_dotted:
  "insert_ranges st xs c = Inr st' \<Longrightarrow> t_dotted_revno st' = t_dotted_revno st"
proof (induction st xs c rule: insert_ranges.induct)
  case (1 st xs c)
  show ?case
  proof (cases "xs = []")
    case True
    with "1.prems" show ?thesis by (simp add: insert_ranges_Nil)
  next
    case False
    let ?tl = "drop (length xs - MAINLINE_PARENT_RANGE_LEN) xs"
    let ?rest = "take (length xs - MAINLINE_PARENT_RANGE_LEN) xs"
    from "1.prems" False obtain st1 where
      ir: "insert_range st ?tl c = Inr st1"
      and rec: "insert_ranges st1 ?rest (Some (hd ?tl)) = Inr st'"
      by (subst (asm) insert_ranges.simps) (auto simp: Let_def split: sum.splits)
    from ir have "t_dotted_revno st1 = t_dotted_revno st"
      by (auto simp: insert_range_def Let_def split: list.splits)
    with "1.IH" [OF False refl refl ir rec] show ?thesis by simp
  qed
qed

lemma build_one_mainline_dotted:
  assumes "build_one_mainline head imp = Some (Inr imp')"
  shows "t_dotted_revno (i_store imp') = t_dotted_revno (i_store imp)"
proof -
  from assms obtain imp1 c st' where
    e: "ensure_revisions [head] imp = Inr imp1"
    and b: "build_one_mainline_db (i_store imp1) c = Some (Inr st')"
    and r: "imp' = imp1\<lparr>i_store := st'\<rparr>"
    by (auto simp: build_one_mainline_def split: sum.splits option.splits)
  from b obtain xs c' where "insert_ranges (i_store imp1) xs c' = Inr st'"
    by (auto simp: build_one_mainline_db_def split: option.splits)
  from insert_ranges_dotted [OF this] ensure_revisions_dotted [OF e] r show ?thesis by simp
qed

text \<open>What \<^verbatim>\<open>_import_tip\<close> adds to \<open>dotted_revno\<close> once it has the merge-sorted list: a
  prefix of the rows of the list's groups.\<close>

lemma import_merge_sorted_calls:
  assumes "import_merge_sorted tip ms imp = Some (Inr imp')"
  shows "\<exists>imp1. insert_calls (ms_groups ms) imp = Inr imp1
           \<and> build_one_mainline tip imp1 = Some (Inr imp')
           \<and> (ms \<noteq> [] \<longrightarrow> ms_merge_depth (hd ms) = 0)"
proof (cases ms)
  case Nil
  with assms show ?thesis by (simp add: import_merge_sorted_def ms_groups_def)
next
  case (Cons n ns)
  have d: "ms_merge_depth n = 0"
  proof (rule ccontr)
    assume "ms_merge_depth n \<noteq> 0"
    with assms Cons show False by (simp add: import_merge_sorted_def)
  qed
  with Cons have start: "import_nodes ms None [] imp = import_nodes ns (Some (ms_key n)) [n] imp"
    by simp
  from assms obtain imp3 where
    "(case import_nodes ns (Some (ms_key n)) [n] imp of
        Inl e \<Rightarrow> Inl e
      | Inr (last', cur', imp1) \<Rightarrow>
          (if cur' = [] then Inr imp1
           else (case last' of
                   None \<Rightarrow> Inl AssertionError
                 | Some l' \<Rightarrow>
                     (case insert_nodes l' cur' imp1 of
                        Inl e \<Rightarrow> Inl e
                      | Inr (inserted, imp2) \<Rightarrow> Inr imp2)))) = Inr imp3"
    and b: "build_one_mainline tip imp3 = Some (Inr imp')"
    unfolding import_merge_sorted_def start
    by (auto split: sum.splits prod.splits if_splits option.splits)
  then have "insert_calls (insert_calls_of ns (ms_key n) [n]) imp = Inr imp3"
    unfolding import_nodes_calls by simp
  with b d Cons show ?thesis by (simp add: ms_groups_def)
qed

lemma import_merge_sorted_rows:
  assumes "import_merge_sorted tip ms imp = Some (Inr imp')"
  shows "\<exists>k. t_dotted_revno (i_store imp') =
           t_dotted_revno (i_store imp) @ take k (ms_rows (i_rev_id_to_db_id imp) ms)"
proof -
  from import_merge_sorted_calls [OF assms] obtain imp1 where
    c: "insert_calls (ms_groups ms) imp = Inr imp1"
    and b: "build_one_mainline tip imp1 = Some (Inr imp')" by blast
  from insert_calls_prefix [OF c] obtain k where
    "imp1 = imp\<lparr>i_store := (i_store imp)\<lparr>t_dotted_revno :=
          t_dotted_revno (i_store imp) @
            take k (concat (map (group_rows (i_rev_id_to_db_id imp)) (ms_groups ms)))\<rparr>\<rparr>"
    by blast
  then have "t_dotted_revno (i_store imp1) =
      t_dotted_revno (i_store imp) @ take k (ms_rows (i_rev_id_to_db_id imp) ms)"
    by (simp add: ms_rows_def)
  with build_one_mainline_dotted [OF b] show ?thesis by auto
qed

lemma create_dotted_revnos_violation:
  "create_dotted_revnos rows st = (Some e, st') \<Longrightarrow>
   \<exists>j < length rows. st' = st\<lparr>t_dotted_revno := t_dotted_revno st @ take j rows\<rparr>
     \<and> row_key (rows ! j) \<in> row_key ` set (t_dotted_revno st')"
proof (induction rows arbitrary: st)
  case Nil
  then show ?case by simp
next
  case (Cons row rows)
  obtain t m r ee md di where row: "row = (t, m, r, ee, md, di)" by (cases row) auto
  show ?case
  proof (cases "\<exists>(t', m', r', e', md', di') \<in> set (t_dotted_revno st). t' = t \<and> m' = m")
    case True
    with Cons.prems row have st': "st' = st" by auto
    from True have "row_key row \<in> row_key ` set (t_dotted_revno st)"
      by (force simp: row row_key_def)
    with st' show ?thesis by (intro exI [of _ 0]) simp
  next
    case False
    let ?st1 = "st\<lparr>t_dotted_revno := t_dotted_revno st @ [(t, m, r, ee, md, di)]\<rparr>"
    from False Cons.prems row have "create_dotted_revnos rows ?st1 = (Some e, st')" by auto
    from Cons.IH [OF this] obtain j where
      j: "j < length rows" "st' = ?st1\<lparr>t_dotted_revno := t_dotted_revno ?st1 @ take j rows\<rparr>"
      "row_key (rows ! j) \<in> row_key ` set (t_dotted_revno st')" by blast
    then show ?thesis unfolding row by (intro exI [of _ "Suc j"]) simp
  qed
qed

lemma insert_nodes_False:
  assumes "insert_nodes l g imp = Inr (False, imp')"
  shows "\<exists>j < length (group_rows (i_rev_id_to_db_id imp) (l, g)).
           imp' = imp\<lparr>i_store := (i_store imp)\<lparr>t_dotted_revno :=
             t_dotted_revno (i_store imp) @ take j (group_rows (i_rev_id_to_db_id imp) (l, g))\<rparr>\<rparr>
         \<and> row_key (group_rows (i_rev_id_to_db_id imp) (l, g) ! j)
             \<in> row_key ` set (t_dotted_revno (i_store imp'))"
proof -
  from assms obtain tip_db_id where tip: "i_rev_id_to_db_id imp l = Some tip_db_id"
    by (auto simp: insert_nodes_def split: option.splits)
  from assms tip obtain db_ids where ids: "lookup_all (i_rev_id_to_db_id imp) (map ms_key g) = Inr db_ids"
    by (auto simp: insert_nodes_def split: sum.splits)
  from lookup_all_Inr [OF ids] have db_ids: "db_ids = map (\<lambda>n. the (i_rev_id_to_db_id imp (ms_key n))) g"
    by (simp add: comp_def)
  have rows: "group_rows (i_rev_id_to_db_id imp) (l, g) = revno_entries tip_db_id g db_ids"
    by (simp add: group_rows_def tip db_ids)
  from assms tip ids obtain e st' where
    c: "create_dotted_revnos (revno_entries tip_db_id g db_ids) (i_store imp) = (Some e, st')"
    and r: "imp' = imp\<lparr>i_store := st'\<rparr>"
    by (auto simp: insert_nodes_def split: option.splits prod.splits)
  from create_dotted_revnos_violation [OF c] r show ?thesis unfolding rows by auto
qed

lemma fresh_rows_Cons:
  "fresh_rows (row # rows) st \<Longrightarrow>
   row_key row \<notin> row_key ` set (t_dotted_revno st)
   \<and> fresh_rows rows (st\<lparr>t_dotted_revno := t_dotted_revno st @ [row]\<rparr>)"
  by (auto simp: fresh_rows_def)

lemma create_dotted_revnos_fresh:
  "fresh_rows rows st \<Longrightarrow>
   create_dotted_revnos rows st = (None, st\<lparr>t_dotted_revno := t_dotted_revno st @ rows\<rparr>)"
proof (induction rows arbitrary: st)
  case Nil
  then show ?case by simp
next
  case (Cons row rows)
  obtain t m r ee md di where row: "row = (t, m, r, ee, md, di)" by (cases row) auto
  from fresh_rows_Cons [OF Cons.prems]
  have k: "row_key row \<notin> row_key ` set (t_dotted_revno st)"
    and f: "fresh_rows rows (st\<lparr>t_dotted_revno := t_dotted_revno st @ [row]\<rparr>)" by simp_all
  from k have "\<not> (\<exists>(t', m', r', e', md', di') \<in> set (t_dotted_revno st). t' = t \<and> m' = m)"
    by (force simp: row row_key_def)
  with Cons.IH [OF f] show ?case unfolding row by simp
qed

lemma fresh_rows_append:
  "fresh_rows (rows @ rest) st \<Longrightarrow>
   fresh_rows rows st \<and> fresh_rows rest (st\<lparr>t_dotted_revno := t_dotted_revno st @ rows\<rparr>)"
  by (auto simp: fresh_rows_def)

lemma insert_nodes_fresh:
  assumes "insert_nodes l g imp = Inr (ok, imp')"
    and "fresh_rows (group_rows (i_rev_id_to_db_id imp) (l, g)) (i_store imp)"
  shows "ok \<and> imp' = imp\<lparr>i_store := (i_store imp)\<lparr>t_dotted_revno :=
            t_dotted_revno (i_store imp) @ group_rows (i_rev_id_to_db_id imp) (l, g)\<rparr>\<rparr>"
proof -
  from assms obtain tip_db_id where tip: "i_rev_id_to_db_id imp l = Some tip_db_id"
    by (auto simp: insert_nodes_def split: option.splits)
  from assms tip obtain db_ids where ids: "lookup_all (i_rev_id_to_db_id imp) (map ms_key g) = Inr db_ids"
    by (auto simp: insert_nodes_def split: sum.splits)
  from lookup_all_Inr [OF ids] have db_ids: "db_ids = map (\<lambda>n. the (i_rev_id_to_db_id imp (ms_key n))) g"
    by (simp add: comp_def)
  have rows: "group_rows (i_rev_id_to_db_id imp) (l, g) = revno_entries tip_db_id g db_ids"
    by (simp add: group_rows_def tip db_ids)
  from create_dotted_revnos_fresh [OF assms(2)] assms(1) tip ids show ?thesis
    unfolding rows by (simp add: insert_nodes_def)
qed

lemma insert_calls_fresh:
  "insert_calls cs imp = Inr imp' \<Longrightarrow>
   fresh_rows (concat (map (group_rows (i_rev_id_to_db_id imp)) cs)) (i_store imp) \<Longrightarrow>
   imp' = imp\<lparr>i_store := (i_store imp)\<lparr>t_dotted_revno :=
          t_dotted_revno (i_store imp) @ concat (map (group_rows (i_rev_id_to_db_id imp)) cs)\<rparr>\<rparr>"
proof (induction cs arbitrary: imp)
  case Nil
  then show ?case by simp
next
  case (Cons c cs)
  obtain l g where c: "c = (l, g)" by (cases c) auto
  let ?m = "i_rev_id_to_db_id imp"
  from Cons.prems(1) c obtain ok imp1 where ins: "insert_nodes l g imp = Inr (ok, imp1)"
    and rest: "if ok then insert_calls cs imp1 = Inr imp' else imp' = imp1"
    by (auto split: sum.splits if_splits)
  from Cons.prems(2) c
  have "fresh_rows (group_rows ?m (l, g) @ concat (map (group_rows ?m) cs)) (i_store imp)"
    by simp
  from fresh_rows_append [OF this]
  have f1: "fresh_rows (group_rows ?m (l, g)) (i_store imp)"
    and f2: "fresh_rows (concat (map (group_rows ?m) cs))
               ((i_store imp)\<lparr>t_dotted_revno := t_dotted_revno (i_store imp) @ group_rows ?m (l, g)\<rparr>)"
    by simp_all
  from insert_nodes_fresh [OF ins f1] have ok: ok
    and imp1: "imp1 = imp\<lparr>i_store := (i_store imp)\<lparr>t_dotted_revno :=
            t_dotted_revno (i_store imp) @ group_rows ?m (l, g)\<rparr>\<rparr>" by simp_all
  from rest ok have r: "insert_calls cs imp1 = Inr imp'" by simp
  from f2 imp1 have "fresh_rows (concat (map (group_rows (i_rev_id_to_db_id imp1)) cs)) (i_store imp1)"
    by simp
  from Cons.IH [OF r this] imp1 c show ?case by simp
qed

lemma import_merge_sorted_fresh:
  assumes "import_merge_sorted tip ms imp = Some (Inr imp')"
    and "fresh_rows (ms_rows (i_rev_id_to_db_id imp) ms) (i_store imp)"
  shows "t_dotted_revno (i_store imp') =
           t_dotted_revno (i_store imp) @ ms_rows (i_rev_id_to_db_id imp) ms"
proof -
  from import_merge_sorted_calls [OF assms(1)] obtain imp1 where
    c: "insert_calls (ms_groups ms) imp = Inr imp1"
    and b: "build_one_mainline tip imp1 = Some (Inr imp')" by blast
  from assms(2) have "fresh_rows (concat (map (group_rows (i_rev_id_to_db_id imp)) (ms_groups ms))) (i_store imp)"
    by (simp add: ms_rows_def)
  from insert_calls_fresh [OF c this]
  have "t_dotted_revno (i_store imp1) =
      t_dotted_revno (i_store imp) @ ms_rows (i_rev_id_to_db_id imp) ms"
    by (simp add: ms_rows_def)
  with build_one_mainline_dotted [OF b] show ?thesis by auto
qed

lemma insert_calls_of_concat: "concat (map snd (insert_calls_of ns l cur)) = cur @ ns"
  by (induction ns arbitrary: l cur) auto

lemma insert_calls_of_groups:
  "cur \<noteq> [] \<Longrightarrow> l = ms_key (hd cur) \<Longrightarrow> ms_merge_depth (hd cur) = 0 \<Longrightarrow>
   \<forall>n \<in> set (tl cur). ms_merge_depth n \<noteq> 0 \<Longrightarrow>
   (l', g) \<in> set (insert_calls_of ns l cur) \<Longrightarrow>
   g \<noteq> [] \<and> l' = ms_key (hd g) \<and> ms_merge_depth (hd g) = 0
     \<and> (\<forall>n \<in> set (tl g). ms_merge_depth n \<noteq> 0)"
proof (induction ns arbitrary: l cur)
  case Nil
  then show ?case by (auto split: if_splits)
next
  case (Cons n ns)
  show ?case
  proof (cases "ms_merge_depth n = 0")
    case True
    with Cons.prems(5) have "(l', g) = (l, cur) \<or> (l', g) \<in> set (insert_calls_of ns (ms_key n) [n])"
      by simp
    then show ?thesis
    proof
      assume "(l', g) = (l, cur)"
      with Cons.prems show ?thesis by simp
    next
      assume "(l', g) \<in> set (insert_calls_of ns (ms_key n) [n])"
      from Cons.IH [OF _ _ _ _ this] True show ?thesis by simp
    qed
  next
    case False
    with Cons.prems(5) have m: "(l', g) \<in> set (insert_calls_of ns l (cur @ [n]))" by simp
    from Cons.prems(1-4) False
    have "cur @ [n] \<noteq> []" "l = ms_key (hd (cur @ [n]))" "ms_merge_depth (hd (cur @ [n])) = 0"
      "\<forall>n' \<in> set (tl (cur @ [n])). ms_merge_depth n' \<noteq> 0"
      by (auto simp: hd_append)
    from Cons.IH [OF this m] show ?thesis .
  qed
qed

lemma group_rows_shape:
  "map (\<lambda>(t, mr, r, e, md, di). (t, di)) (group_rows m (l, g)) =
     map (\<lambda>i. (the (m l), i)) [0..<length g]"
  by (rule nth_equalityI) (simp_all add: group_rows_def revno_entries_def nth_enumerate_eq)

lemma group_rows_nodes:
  "map (\<lambda>(t, mr, r, e, md, di). (mr, r, e, md)) (group_rows m (l, g)) =
     map (\<lambda>n. (the (m (ms_key n)), revno_str (ms_revno n), ms_end_of_merge n, ms_merge_depth n)) g"
  by (rule nth_equalityI) (simp_all add: group_rows_def revno_entries_def nth_enumerate_eq)

lemma ms_groups_shape:
  assumes "ms = [] \<or> ms_merge_depth (hd ms) = 0" and "(l, g) \<in> set (ms_groups ms)"
  shows "g \<noteq> [] \<and> l = ms_key (hd g) \<and> ms_merge_depth (hd g) = 0
     \<and> (\<forall>n \<in> set (tl g). ms_merge_depth n \<noteq> 0)"
proof (cases ms)
  case Nil
  with assms(2) show ?thesis by (simp add: ms_groups_def)
next
  case (Cons n ns)
  with assms have d: "ms_merge_depth n = 0"
    and m: "(l, g) \<in> set (insert_calls_of ns (ms_key n) [n])"
    by (simp_all add: ms_groups_def)
  from insert_calls_of_groups [OF _ _ _ _ m] d show ?thesis by simp
qed

lemma ms_groups_concat: "concat (map snd (ms_groups ms)) = ms"
  by (cases ms) (simp_all add: ms_groups_def insert_calls_of_concat)

subsection \<open>A uniqueness violation while the rows are inserted\<close>

text \<open>
  Claim C8, at a concrete import. The file holds the imports of \<open>A\<close> and \<open>B\<close>, and
  \<open>C\<close> (a child of \<open>B\<close>) is imported by an importer that is not incremental, whose merge
  sort lists \<open>C\<close>, \<open>B\<close>, \<open>A\<close>. The rows of \<open>C\<close> are inserted, the insertion of the rows
  of \<open>B\<close> violates \<open>UNIQUE(tip, merged)\<close> and the rows of \<open>A\<close> are not tried: the answers
  of \<^verbatim>\<open>_insert_nodes\<close> are \<^verbatim>\<open>True\<close>, \<^verbatim>\<open>False\<close>. The import returns normally and has
  committed: the file is not what it was before, it holds the revision, the parent,
  the row and the range of \<open>C\<close>.
\<close>

theorem uniqueness_violation_counterexample:
  "insert_answers (ms_groups ms_ABC) importer_C = [True, False]
   \<and> full_import graph_ABC store_AB ''C'' =
       Some (Inr \<lparr>t_revision = [(1, ''A'', 1), (2, ''B'', 2), (3, ''C'', 3)], t_ghost = [],
                   t_parent = [(2, 1, 0), (3, 2, 0)],
                   t_dotted_revno =
                     [(1, 1, ''1'', True, 0, 0), (2, 2, ''2'', False, 0, 0),
                      (3, 3, ''3'', False, 0, 0)],
                   t_mainline_parent_range = [(1, 1, None, 1), (2, 2, None, 2), (3, 3, None, 3)],
                   t_mainline_parent =
                     [(1, 1, 0), (2, 2, 0), (2, 1, 1), (3, 3, 0), (3, 1, 1), (3, 2, 2)]\<rparr>)"
  by code_simp

text \<open>
  Claim C8, as the code has it. \<^verbatim>\<open>_insert_nodes\<close> never lets \<^verbatim>\<open>IntegrityError\<close> out.
  When it answers \<^verbatim>\<open>False\<close>, a row of the group was already in the table (same tip and
  merged revision) and the rows inserted before that one are still there. What
  \<^verbatim>\<open>_import_tip\<close> leaves in \<open>dotted_revno\<close> is the table it found followed by the rows of
  the merge-sorted list up to the first violation: nothing is taken back. When
  \<^verbatim>\<open>do_import\<close> returns normally for a tip that is not the null revision, it has
  committed the store as \<^verbatim>\<open>_import_tip\<close> left it.
\<close>

theorem uniqueness_violation_is_not_rolled_back:
  "insert_nodes l g imp \<noteq> Inl IntegrityError
   \<and> (insert_nodes l g imp = Inr (False, imp1) \<longrightarrow>
        (\<exists>j < length (group_rows (i_rev_id_to_db_id imp) (l, g)).
           i_store imp1 = (i_store imp)\<lparr>t_dotted_revno :=
             t_dotted_revno (i_store imp) @ take j (group_rows (i_rev_id_to_db_id imp) (l, g))\<rparr>
           \<and> row_key (group_rows (i_rev_id_to_db_id imp) (l, g) ! j)
               \<in> row_key ` set (t_dotted_revno (i_store imp1))))
   \<and> (import_merge_sorted tip ms imp = Some (Inr imp2) \<longrightarrow>
        (\<exists>k. t_dotted_revno (i_store imp2) =
           t_dotted_revno (i_store imp) @ take k (ms_rows (i_rev_id_to_db_id imp) ms)))
   \<and> (do_import imp = Some (Inr imp3) \<and> i_branch_tip_rev_id imp \<noteq> NULL_REVISION \<longrightarrow>
        (\<exists>imp'. import_tip (i_branch_tip_rev_id imp) imp = Some (Inr imp')
           \<and> imp3 = commit imp' \<and> i_committed imp3 = i_store imp'))"
proof (intro conjI impI)
  show "insert_nodes l g imp \<noteq> Inl IntegrityError"
    using insert_nodes_error [of l g imp IntegrityError] by auto
next
  assume "insert_nodes l g imp = Inr (False, imp1)"
  from insert_nodes_False [OF this]
  show "\<exists>j < length (group_rows (i_rev_id_to_db_id imp) (l, g)).
           i_store imp1 = (i_store imp)\<lparr>t_dotted_revno :=
             t_dotted_revno (i_store imp) @ take j (group_rows (i_rev_id_to_db_id imp) (l, g))\<rparr>
           \<and> row_key (group_rows (i_rev_id_to_db_id imp) (l, g) ! j)
               \<in> row_key ` set (t_dotted_revno (i_store imp1))"
    by auto
next
  assume "import_merge_sorted tip ms imp = Some (Inr imp2)"
  from import_merge_sorted_rows [OF this]
  show "\<exists>k. t_dotted_revno (i_store imp2) =
           t_dotted_revno (i_store imp) @ take k (ms_rows (i_rev_id_to_db_id imp) ms)" .
next
  assume "do_import imp = Some (Inr imp3) \<and> i_branch_tip_rev_id imp \<noteq> NULL_REVISION"
  then show "\<exists>imp'. import_tip (i_branch_tip_rev_id imp) imp = Some (Inr imp')
           \<and> imp3 = commit imp' \<and> i_committed imp3 = i_store imp'"
    by (auto simp: do_import_def commit_def split: option.splits sum.splits)
qed

lemma importer_C_facts:
  "(case insert_nodes ''B'' [ms_ABC ! 1] importer_C of
      Inr (inserted, imp1) \<Rightarrow> \<not> inserted \<and> t_dotted_revno (i_store imp1) = t_dotted_revno store_AB
    | _ \<Rightarrow> False)"
  "(case import_merge_sorted ''C'' ms_ABC importer_C of
      Some (Inr imp2) \<Rightarrow>
        t_dotted_revno (i_store imp2) = t_dotted_revno store_AB @ [(3, 3, ''3'', False, 0, 0)]
    | _ \<Rightarrow> False)"
  "(case do_import importer_C of
      Some (Inr imp3) \<Rightarrow>
        t_dotted_revno (i_committed imp3) = t_dotted_revno store_AB @ [(3, 3, ''3'', False, 0, 0)]
    | _ \<Rightarrow> False)"
  "i_branch_tip_rev_id importer_C \<noteq> NULL_REVISION"
  "t_dotted_revno (i_store importer_C) = t_dotted_revno store_AB"
  by code_simp+

theorem uniqueness_violation_is_not_rolled_back_witness:
  "\<exists>imp1 imp2 imp3 imp'.
     insert_nodes ''B'' [ms_ABC ! 1] importer_C = Inr (False, imp1)
     \<and> import_merge_sorted ''C'' ms_ABC importer_C = Some (Inr imp2)
     \<and> do_import importer_C = Some (Inr imp3)
     \<and> import_tip ''C'' importer_C = Some (Inr imp')
     \<and> i_committed imp3 = i_store imp'
     \<and> t_dotted_revno (i_committed imp3) = t_dotted_revno store_AB @ [(3, 3, ''3'', False, 0, 0)]
     \<and> (\<exists>k. t_dotted_revno (i_store imp2) =
           t_dotted_revno store_AB @ take k (ms_rows (i_rev_id_to_db_id importer_C) ms_ABC))"
proof -
  from importer_C_facts(1) obtain imp1 where
    a: "insert_nodes ''B'' [ms_ABC ! 1] importer_C = Inr (False, imp1)"
    by (auto split: sum.splits prod.splits)
  from importer_C_facts(2) obtain imp2 where
    b: "import_merge_sorted ''C'' ms_ABC importer_C = Some (Inr imp2)"
    by (auto split: option.splits sum.splits)
  from importer_C_facts(3) obtain imp3 where
    c: "do_import importer_C = Some (Inr imp3)"
    and rows: "t_dotted_revno (i_committed imp3) = t_dotted_revno store_AB @ [(3, 3, ''3'', False, 0, 0)]"
    by (auto split: option.splits sum.splits)
  have tip: "i_branch_tip_rev_id importer_C = ''C''" by code_simp
  note t = uniqueness_violation_is_not_rolled_back
    [of "''B''" "[ms_ABC ! 1]" importer_C imp1 "''C''" ms_ABC imp2 imp3]
  note t2 = t [THEN conjunct2, THEN conjunct1, rule_format, OF a]
  note t3 = t [THEN conjunct2, THEN conjunct2, THEN conjunct1, rule_format, OF b]
  note t4 = t [THEN conjunct2, THEN conjunct2, THEN conjunct2, rule_format,
    OF conjI [OF c importer_C_facts(4)]]
  from t4 obtain imp' where
    d: "import_tip (i_branch_tip_rev_id importer_C) importer_C = Some (Inr imp')"
    "i_committed imp3 = i_store imp'" by blast
  from t3 have k: "\<exists>k. t_dotted_revno (i_store imp2) =
      t_dotted_revno store_AB @ take k (ms_rows (i_rev_id_to_db_id importer_C) ms_ABC)"
    unfolding importer_C_facts(5) .
  from d(1) have d1: "import_tip ''C'' importer_C = Some (Inr imp')" unfolding tip .
  show ?thesis
    by (intro exI [of _ imp1] exI [of _ imp2] exI [of _ imp3] exI [of _ imp'] conjI)
      (fact a b c d1 d(2) rows k)+
qed

subsection \<open>The rows of an import\<close>

text \<open>
  Rows are stored under the mainline revision that merged them. \<open>B\<close> has the one
  parent \<open>A\<close>. After
  the incremental imports of \<open>A\<close> and then \<open>B\<close>, the rows with tip \<open>B\<close> (db id 2) are
  the single row of \<open>B\<close> itself; the row of \<open>A\<close>, which is in the ancestry of \<open>B\<close>, is
  stored with tip \<open>A\<close> and dist 0. The same holds when the rows come from the merge
  sort of a known graph: of the three nodes that it lists for \<open>C\<close>, one is stored with
  tip \<open>C\<close> (db id 1 in that file).
\<close>

theorem rows_with_tip_counterexample:
  "incremental_import repo_AB empty_store ''A'' = Some (Inr store_A)
   \<and> incremental_import repo_AB store_A ''B'' = Some (Inr store_AB)
   \<and> repo_AB ''B'' = Some [''A'']
   \<and> rows_with_tip 2 store_AB = [(2, 2, ''2'', False, 0, 0)]
   \<and> rows_with_tip 1 store_AB = [(1, 1, ''1'', True, 0, 0)]
   \<and> kg_merge_sort graph_ABC ''C'' = ms_ABC \<and> length ms_ABC = 3
   \<and> map_option (map_sum id (rows_with_tip 1)) (full_import graph_ABC empty_store ''C'') =
       Some (Inr [(1, 1, ''3'', False, 0, 0)])"
  by code_simp

text \<open>
  How a merge-sorted list is stored. \<^verbatim>\<open>_import_tip\<close> stores the merge-sorted list that it
  has (from \<^verbatim>\<open>topo_order\<close> when the importer is incremental, from the graph's merge sort
  otherwise) cut into groups: every node of merge depth 0 starts a group, and the
  groups in order make up the list. The rows of a group have the group's mainline
  revision as their tip and \<open>dist\<close> counting from 0 within the group; they carry the
  merged revision, the revno, \<open>end_of_merge\<close> and the merge depth of the group's nodes,
  in the order of the list. The table afterwards is the table before followed by these
  rows up to the first uniqueness violation, and by all of them when no row's tip and
  merged revision are there before.
\<close>

theorem import_stores_mainline_groups:
  assumes "import_merge_sorted tip ms imp = Some (Inr imp')"
  shows "(\<exists>k. t_dotted_revno (i_store imp') =
            t_dotted_revno (i_store imp) @ take k (ms_rows (i_rev_id_to_db_id imp) ms))
     \<and> (fresh_rows (ms_rows (i_rev_id_to_db_id imp) ms) (i_store imp) \<longrightarrow>
          t_dotted_revno (i_store imp') =
            t_dotted_revno (i_store imp) @ ms_rows (i_rev_id_to_db_id imp) ms)
     \<and> ms_rows (i_rev_id_to_db_id imp) ms =
          concat (map (group_rows (i_rev_id_to_db_id imp)) (ms_groups ms))
     \<and> concat (map snd (ms_groups ms)) = ms
     \<and> (\<forall>(l, g) \<in> set (ms_groups ms).
          g \<noteq> [] \<and> l = ms_key (hd g) \<and> ms_merge_depth (hd g) = 0
          \<and> (\<forall>n \<in> set (tl g). ms_merge_depth n \<noteq> 0)
          \<and> map (\<lambda>(t, mr, r, e, md, di). (t, di)) (group_rows (i_rev_id_to_db_id imp) (l, g)) =
              map (\<lambda>i. (the (i_rev_id_to_db_id imp l), i)) [0..<length g]
          \<and> map (\<lambda>(t, mr, r, e, md, di). (mr, r, e, md)) (group_rows (i_rev_id_to_db_id imp) (l, g)) =
              map (\<lambda>n. (the (i_rev_id_to_db_id imp (ms_key n)), revno_str (ms_revno n),
                         ms_end_of_merge n, ms_merge_depth n)) g)"
proof (intro conjI impI)
  from import_merge_sorted_rows [OF assms]
  show "\<exists>k. t_dotted_revno (i_store imp') =
            t_dotted_revno (i_store imp) @ take k (ms_rows (i_rev_id_to_db_id imp) ms)" .
next
  assume "fresh_rows (ms_rows (i_rev_id_to_db_id imp) ms) (i_store imp)"
  from import_merge_sorted_fresh [OF assms this]
  show "t_dotted_revno (i_store imp') =
            t_dotted_revno (i_store imp) @ ms_rows (i_rev_id_to_db_id imp) ms" .
next
  show "ms_rows (i_rev_id_to_db_id imp) ms =
          concat (map (group_rows (i_rev_id_to_db_id imp)) (ms_groups ms))"
    by (simp add: ms_rows_def)
next
  show "concat (map snd (ms_groups ms)) = ms" by (rule ms_groups_concat)
next
  from import_merge_sorted_calls [OF assms]
  obtain imp1 where "ms \<noteq> [] \<longrightarrow> ms_merge_depth (hd ms) = 0" by blast
  then have d: "ms = [] \<or> ms_merge_depth (hd ms) = 0" by auto
  show "\<forall>(l, g) \<in> set (ms_groups ms).
          g \<noteq> [] \<and> l = ms_key (hd g) \<and> ms_merge_depth (hd g) = 0
          \<and> (\<forall>n \<in> set (tl g). ms_merge_depth n \<noteq> 0)
          \<and> map (\<lambda>(t, mr, r, e, md, di). (t, di)) (group_rows (i_rev_id_to_db_id imp) (l, g)) =
              map (\<lambda>i. (the (i_rev_id_to_db_id imp l), i)) [0..<length g]
          \<and> map (\<lambda>(t, mr, r, e, md, di). (mr, r, e, md)) (group_rows (i_rev_id_to_db_id imp) (l, g)) =
              map (\<lambda>n. (the (i_rev_id_to_db_id imp (ms_key n)), revno_str (ms_revno n),
                         ms_end_of_merge n, ms_merge_depth n)) g"
  proof (intro ballI, clarify, intro conjI)
    fix l g
    assume m: "(l, g) \<in> set (ms_groups ms)"
    from ms_groups_shape [OF d m]
    show "g \<noteq> []" "l = ms_key (hd g)" "ms_merge_depth (hd g) = 0"
      "\<forall>n \<in> set (tl g). ms_merge_depth n \<noteq> 0" by simp_all
    show "map (\<lambda>(t, mr, r, e, md, di). (t, di)) (group_rows (i_rev_id_to_db_id imp) (l, g)) =
              map (\<lambda>i. (the (i_rev_id_to_db_id imp l), i)) [0..<length g]"
      by (rule group_rows_shape)
    show "map (\<lambda>(t, mr, r, e, md, di). (mr, r, e, md)) (group_rows (i_rev_id_to_db_id imp) (l, g)) =
              map (\<lambda>n. (the (i_rev_id_to_db_id imp (ms_key n)), revno_str (ms_revno n),
                         ms_end_of_merge n, ms_merge_depth n)) g"
      by (rule group_rows_nodes)
  qed
qed

lemma importer_D_facts:
  "(case import_merge_sorted ''D'' ms_D importer_D of Some (Inr imp') \<Rightarrow> True | _ \<Rightarrow> False)"
  "fresh_rows (ms_rows (i_rev_id_to_db_id importer_D) ms_D) (i_store importer_D)"
  "t_dotted_revno (i_store importer_D) = []"
  "ms_rows (i_rev_id_to_db_id importer_D) ms_D =
     [(4, 4, ''3'', False, 0, 0), (4, 2, ''1.1.1'', True, 1, 1),
      (3, 3, ''2'', False, 0, 0), (1, 1, ''1'', True, 0, 0)]"
  "map fst (ms_groups ms_D) = [''D'', ''B'', ''A'']"
  "map (map ms_key) (map snd (ms_groups ms_D)) = [[''D'', ''C''], [''B''], [''A'']]"
  by code_simp+

theorem import_stores_mainline_groups_witness:
  "\<exists>imp'. import_merge_sorted ''D'' ms_D importer_D = Some (Inr imp')
     \<and> t_dotted_revno (i_store imp') =
         [(4, 4, ''3'', False, 0, 0), (4, 2, ''1.1.1'', True, 1, 1),
          (3, 3, ''2'', False, 0, 0), (1, 1, ''1'', True, 0, 0)]
     \<and> map (map ms_key) (map snd (ms_groups ms_D)) = [[''D'', ''C''], [''B''], [''A'']]
     \<and> (\<forall>(l, g) \<in> set (ms_groups ms_D). l = ms_key (hd g))"
proof -
  from importer_D_facts(1) obtain imp' where
    a: "import_merge_sorted ''D'' ms_D importer_D = Some (Inr imp')"
    by (auto split: option.splits sum.splits)
  note t = import_stores_mainline_groups [OF a]
  from t [THEN conjunct2, THEN conjunct1, rule_format, OF importer_D_facts(2)]
  have rows: "t_dotted_revno (i_store imp') =
         [(4, 4, ''3'', False, 0, 0), (4, 2, ''1.1.1'', True, 1, 1),
          (3, 3, ''2'', False, 0, 0), (1, 1, ''1'', True, 0, 0)]"
    unfolding importer_D_facts(3,4) by simp
  have g: "\<forall>(l, g) \<in> set (ms_groups ms_D). l = ms_key (hd g)"
  proof (intro ballI, clarify)
    fix l g
    assume "(l, g) \<in> set (ms_groups ms_D)"
    from t [THEN conjunct2, THEN conjunct2, THEN conjunct2, THEN conjunct2, THEN bspec, OF this]
    show "l = ms_key (hd g)" by simp
  qed
  show ?thesis
    by (intro exI [of _ imp'] conjI) (fact a rows importer_D_facts(6) g)+
qed

lemma reads_only_refl: "reads_only q q"
  by (auto simp: reads_only_def intro: exI [of _ 0])

lemma reads_only_trans: "reads_only q q1 \<Longrightarrow> reads_only q1 q2 \<Longrightarrow> reads_only q q2"
  unfolding reads_only_def
  by (auto simp: replicate_add [symmetric] simp del: replicate_add)

lemma reads_only_cursor: "reads_only q (q_get_cursor q)"
  by (auto simp: reads_only_def q_get_cursor_def intro: exI [of _ 0])

lemma reads_only_read: "reads_only q (q_read q)"
  by (auto simp: reads_only_def q_read_def intro: exI [of _ 1])

lemma reads_only_db_id: "q_get_db_id q r = (d, q1) \<Longrightarrow> reads_only q q1"
  by (auto simp: q_get_db_id_def reads_only_cursor)

lemma reads_only_range_key: "q_get_range_key_and_tail q tip = (r, q1) \<Longrightarrow> reads_only q q1"
  by (auto simp: q_get_range_key_and_tail_def q_get_lh_parent_db_id_def reads_only_def
      q_get_cursor_def split: option.splits intro: exI [of _ 0])

lemma reads_only_step: "q_get_range_key_and_tail q tip = (r, q1) \<Longrightarrow> reads_only q (q_read q1)"
  by (blast intro: reads_only_trans reads_only_range_key reads_only_read)

lemma lookup_db_ids_reads: "lookup_db_ids rs q db_ids m = (r, q') \<Longrightarrow> reads_only q q'"
proof (induction rs arbitrary: q db_ids m)
  case Nil
  then show ?case by (simp add: reads_only_refl)
next
  case (Cons a rs)
  obtain d q1 where g: "q_get_db_id q a = (d, q1)" by (cases "q_get_db_id q a") auto
  with Cons.prems have "lookup_db_ids rs q1 (List.insert d db_ids) (dict_set d a m) = (r, q')"
    by simp
  from Cons.IH [OF this] reads_only_db_id [OF g] show ?case by (blast intro: reads_only_trans)
qed

lemma get_dotted_revnos_loop_reads:
  assumes "get_dotted_revnos_loop q tip db_ids m revnos = Some y"
  shows "reads_only q (snd y)"
  apply (rule get_dotted_revnos_loop.raw_induct
      [where P = "\<lambda>q tip db_ids m revnos y. reads_only q (snd y)", OF _ assms])
  apply (auto split: option.splits if_splits prod.splits sum.splits
      simp: reads_only_refl reads_only_step)
  apply (blast intro: reads_only_trans reads_only_step)
  done

lemma get_revision_ids_loop_reads:
  assumes "get_revision_ids_loop q tip revno_strs revno_map = Some y"
  shows "reads_only q (snd y)"
  apply (rule get_revision_ids_loop.raw_induct
      [where P = "\<lambda>q tip revno_strs revno_map y. reads_only q (snd y)", OF _ assms])
  apply (auto split: option.splits if_splits prod.splits sum.splits
      simp: reads_only_refl reads_only_step)
  apply (blast intro: reads_only_trans reads_only_step)
  done

lemma get_mainline_where_merged_loop_reads:
  assumes "get_mainline_where_merged_loop q tip db_ids m res = Some y"
  shows "reads_only q (snd y)"
  apply (rule get_mainline_where_merged_loop.raw_induct
      [where P = "\<lambda>q tip db_ids m res y. reads_only q (snd y)", OF _ assms])
  apply (auto split: option.splits if_splits prod.splits sum.splits
      simp: reads_only_refl reads_only_step)
  apply (blast intro: reads_only_trans reads_only_step)
  done

lemma find_tip_containing_loop_reads:
  assumes "find_tip_containing_loop q tip merged = Some y"
  shows "reads_only q (snd y)"
  apply (rule find_tip_containing_loop.raw_induct
      [where P = "\<lambda>q tip merged y. reads_only q (snd y)", OF _ assms])
  apply (auto split: option.splits if_splits prod.splits sum.splits
      simp: reads_only_refl reads_only_step)
  apply (blast intro: reads_only_trans reads_only_step)
  done

lemma get_merge_sorted_range_loop_reads:
  assumes "get_merge_sorted_range_loop q tip found start stop out = Some y"
  shows "reads_only q (snd y)"
  apply (rule get_merge_sorted_range_loop.raw_induct
      [where P = "\<lambda>q tip found start stop out y. reads_only q (snd y)", OF _ assms])
  apply (auto split: option.splits if_splits prod.splits sum.splits
      simp: reads_only_refl reads_only_step)
  apply (blast intro: reads_only_trans reads_only_step)
  done

lemma walk_ancestry_loop_reads:
  assumes "walk_ancestry_loop q db_id all_ancestors = Some y"
  shows "reads_only q (snd y)"
  apply (rule walk_ancestry_loop.raw_induct
      [where P = "\<lambda>q db_id all_ancestors y. reads_only q (snd y)", OF _ assms])
  apply (auto split: option.splits if_splits prod.splits sum.splits
      simp: reads_only_refl reads_only_step)
  apply (blast intro: reads_only_trans reads_only_step)
  done

lemma walk_mainline_loop_reads:
  assumes "walk_mainline_loop q db_id all_ids = Some y"
  shows "reads_only q (snd y)"
  apply (rule walk_mainline_loop.raw_induct
      [where P = "\<lambda>q db_id all_ids y. reads_only q (snd y)", OF _ assms])
  apply (auto split: option.splits if_splits prod.splits sum.splits list.splits
      simp: reads_only_refl reads_only_cursor get_mainline_range_starting_at_raises)
  done

lemma get_dotted_revnos_reads:
  assumes "get_dotted_revnos repo q ids = Some (r, q')"
  shows "\<exists>e qe. ensure_branch_tip repo q = Some (e, qe) \<and> reads_only qe q'"
proof -
  from assms obtain e qe where en: "ensure_branch_tip repo q = Some (e, qe)"
    by (auto simp: get_dotted_revnos_def split: option.splits)
  show ?thesis
  proof (cases e)
    case (Some err)
    with assms en have "q' = qe" by (simp add: get_dotted_revnos_def)
    with en show ?thesis by (auto simp: reads_only_refl)
  next
    case None
    show ?thesis
    proof (cases "q_branch_tip_db_id qe")
      case n: None
      with assms en None have "q' = q_get_cursor qe" by (simp add: get_dotted_revnos_def)
      with en show ?thesis by (auto simp: reads_only_cursor)
    next
      case (Some tip)
      obtain db_ids m q2 where l: "lookup_db_ids ids (q_get_cursor qe) [] [] = ((db_ids, m), q2)"
        by (cases "lookup_db_ids ids (q_get_cursor qe) [] []") auto
      with assms en None Some have "get_dotted_revnos_loop q2 (Some tip) db_ids m [] = Some (r, q')"
        by (simp add: get_dotted_revnos_def)
      from get_dotted_revnos_loop_reads [OF this] have "reads_only q2 q'" by simp
      with lookup_db_ids_reads [OF l] reads_only_cursor [of qe] have "reads_only qe q'"
        by (blast intro: reads_only_trans)
      with en show ?thesis by blast
    qed
  qed
qed

lemma get_revision_ids_reads:
  assumes "get_revision_ids repo q revnos = Some (r, q')"
  shows "\<exists>e qe. ensure_branch_tip repo q = Some (e, qe) \<and> reads_only qe q'"
proof -
  from assms obtain e qe where en: "ensure_branch_tip repo q = Some (e, qe)"
    by (auto simp: get_revision_ids_def split: option.splits)
  show ?thesis
  proof (cases e)
    case (Some err)
    with assms en have "q' = qe" by (simp add: get_revision_ids_def)
    with en show ?thesis by (auto simp: reads_only_refl)
  next
    case None
    with assms en have "get_revision_ids_loop (q_get_cursor qe) (q_branch_tip_db_id qe)
        (remdups (map revno_str revnos)) [] = Some (r, q')"
      by (simp add: get_revision_ids_def)
    from get_revision_ids_loop_reads [OF this] have "reads_only (q_get_cursor qe) q'" by simp
    with reads_only_cursor [of qe] have "reads_only qe q'" by (blast intro: reads_only_trans)
    with en show ?thesis by blast
  qed
qed

lemma get_mainline_where_merged_reads:
  assumes "get_mainline_where_merged repo q ids = Some (r, q')"
  shows "\<exists>e qe. ensure_branch_tip repo q = Some (e, qe) \<and> reads_only qe q'"
proof -
  from assms obtain e qe where en: "ensure_branch_tip repo q = Some (e, qe)"
    by (auto simp: get_mainline_where_merged_def split: option.splits)
  show ?thesis
  proof (cases e)
    case (Some err)
    with assms en have "q' = qe" by (simp add: get_mainline_where_merged_def)
    with en show ?thesis by (auto simp: reads_only_refl)
  next
    case None
    show ?thesis
    proof (cases "q_branch_tip_db_id qe")
      case n: None
      with assms en None have "q' = qe" by (simp add: get_mainline_where_merged_def)
      with en show ?thesis by (auto simp: reads_only_refl)
    next
      case (Some tip)
      obtain db_ids m q2 where l: "lookup_db_ids ids (q_get_cursor qe) [] [] = ((db_ids, m), q2)"
        by (cases "lookup_db_ids ids (q_get_cursor qe) [] []") auto
      with assms en None Some
      have "get_mainline_where_merged_loop q2 (Some tip) db_ids m [] = Some (r, q')"
        by (simp add: get_mainline_where_merged_def)
      from get_mainline_where_merged_loop_reads [OF this] have "reads_only q2 q'" by simp
      with lookup_db_ids_reads [OF l] reads_only_cursor [of qe] have "reads_only qe q'"
        by (blast intro: reads_only_trans)
      with en show ?thesis by blast
    qed
  qed
qed

lemma iter_merge_sorted_revisions_reads:
  assumes "iter_merge_sorted_revisions repo q start stop = Some (r, q')"
  shows "\<exists>e qe. ensure_branch_tip repo q = Some (e, qe) \<and> reads_only qe q'"
proof -
  from assms obtain e qe where en: "ensure_branch_tip repo q = Some (e, qe)"
    by (auto simp: iter_merge_sorted_revisions_def split: option.splits)
  show ?thesis
  proof (cases e)
    case (Some err)
    with assms en have "q' = qe" by (simp add: iter_merge_sorted_revisions_def)
    with en show ?thesis by (auto simp: reads_only_refl)
  next
    case None
    show ?thesis
    proof (cases "q_branch_tip_db_id qe")
      case n: None
      with assms en None have "q' = qe" by (simp add: iter_merge_sorted_revisions_def)
      with en show ?thesis by (auto simp: reads_only_refl)
    next
      case (Some tip)
      obtain start_db_id q2 where
        s: "(case start of None \<Rightarrow> (Some tip, qe) | Some r \<Rightarrow> q_get_db_id qe r) = (start_db_id, q2)"
        by (cases "case start of None \<Rightarrow> (Some tip, qe) | Some r \<Rightarrow> q_get_db_id qe r") auto
      obtain stop_db_id q3 where
        t: "(case stop of None \<Rightarrow> (None, q2) | Some r \<Rightarrow> q_get_db_id q2 r) = (stop_db_id, q3)"
        by (cases "case stop of None \<Rightarrow> (None, q2) | Some r \<Rightarrow> q_get_db_id q2 r") auto
      from s have r2: "reads_only qe q2"
        by (auto split: option.splits simp: reads_only_refl dest: reads_only_db_id)
      from t have r3: "reads_only q2 q3"
        by (auto split: option.splits simp: reads_only_refl dest: reads_only_db_id)
      from assms en None Some s t obtain tip_db_id q4 where
        f: "find_tip_containing q3 (Some tip) start_db_id = Some (tip_db_id, q4)"
        and g: "get_merge_sorted_range q4 tip_db_id start_db_id stop_db_id = Some (r, q')"
        by (auto simp: iter_merge_sorted_revisions_def split: option.splits)
      from find_tip_containing_loop_reads [OF f [unfolded find_tip_containing_def]]
      have r4: "reads_only q3 q4" using reads_only_cursor [of q3]
        by (auto intro: reads_only_trans)
      from get_merge_sorted_range_loop_reads [OF g [unfolded get_merge_sorted_range_def]]
      have r5: "reads_only q4 q'" using reads_only_cursor [of q4]
        by (auto intro: reads_only_trans)
      from r2 r3 r4 r5 have "reads_only qe q'" by (blast intro: reads_only_trans)
      with en show ?thesis by blast
    qed
  qed
qed

lemma walk_ancestry_reads:
  assumes "walk_ancestry q = Some (r, q')"
  shows "reads_only q q'"
proof -
  obtain d q1 where g: "q_get_db_id q (q_branch_tip_rev_id q) = (d, q1)"
    by (cases "q_get_db_id q (q_branch_tip_rev_id q)") auto
  with assms have "walk_ancestry_loop (q_get_cursor q1) d [] = Some (r, q')"
    by (simp add: walk_ancestry_def)
  from walk_ancestry_loop_reads [OF this] have "reads_only (q_get_cursor q1) q'" by simp
  with reads_only_db_id [OF g] reads_only_cursor [of q1] show ?thesis
    by (blast intro: reads_only_trans)
qed

lemma walk_mainline_reads:
  assumes "walk_mainline q = Some (r, q')"
  shows "reads_only q q'"
proof -
  obtain d q1 where g: "q_get_db_id q (q_branch_tip_rev_id q) = (d, q1)"
    by (cases "q_get_db_id q (q_branch_tip_rev_id q)") auto
  with assms have "walk_mainline_loop q1 d [] = Some (r, q')"
    by (simp add: walk_mainline_def)
  from walk_mainline_loop_reads [OF this] have "reads_only q1 q'" by simp
  with reads_only_db_id [OF g] show ?thesis by (blast intro: reads_only_trans)
qed

text \<open>The events of an import by \<^verbatim>\<open>_import_tip\<close>: under the lock when one was given.\<close>

lemma q_import_tip_Some:
  assumes "q_import_tip repo q = Some (None, q')"
  shows "q_tip_is_imported q'
     \<and> incremental_import repo (q_store q) (q_branch_tip_rev_id q) = Some (Inr (q_store q'))
     \<and> q_trace q' = q_trace q @ import_events (q_importer_lock q)"
proof (cases "q_importer_lock q")
  case None
  with assms show ?thesis
    by (auto simp: q_import_tip_def lock_acquire_def lock_release_def q_close_def
        q_get_db_id_def q_get_cursor_def import_events_def
        split: option.splits sum.splits if_splits)
next
  case (Some held)
  with assms show ?thesis
    by (auto simp: q_import_tip_def lock_acquire_def lock_release_def q_close_def
        q_get_db_id_def q_get_cursor_def import_events_def
        split: option.splits sum.splits if_splits)
qed

lemma ensure_branch_tip_Some:
  assumes "ensure_branch_tip repo q = Some (None, q')"
  shows "q_tip_is_imported q'
     \<and> (q_store q' = q_store q \<and> q_trace q' = q_trace q @ [EnsureBranchTip]
        \<or> incremental_import repo (q_store q) (q_branch_tip_rev_id q) = Some (Inr (q_store q'))
          \<and> q_trace q' = q_trace q @ EnsureBranchTip # import_events (q_importer_lock q))"
proof -
  let ?q0 = "q\<lparr>q_trace := q_trace q @ [EnsureBranchTip]\<rparr>"
  show ?thesis
  proof (cases "q_branch_tip_db_id q")
    case None
    with assms have "q_import_tip repo ?q0 = Some (None, q')"
      by (simp add: ensure_branch_tip_def Let_def)
    from q_import_tip_Some [OF this] show ?thesis by simp
  next
    case (Some tip)
    show ?thesis
    proof (cases "q_tip_is_imported q")
      case True
      with assms Some show ?thesis by (auto simp: ensure_branch_tip_def Let_def)
    next
      case False
      show ?thesis
      proof (cases "is_imported_db_id (q_store q) tip")
        case True
        with assms Some False show ?thesis
          by (auto simp: ensure_branch_tip_def Let_def q_is_imported_db_id_def q_get_cursor_def)
      next
        case f: False
        with assms Some False have "q_import_tip repo (q_get_cursor ?q0) = Some (None, q')"
          by (simp add: ensure_branch_tip_def Let_def q_is_imported_db_id_def)
        from q_import_tip_Some [OF this] show ?thesis by (simp add: q_get_cursor_def)
      qed
    qed
  qed
qed

subsection \<open>Which read methods import the branch tip first\<close>

text \<open>
  Claim C9, at a concrete querier: \<^verbatim>\<open>walk_ancestry\<close> and \<^verbatim>\<open>walk_mainline\<close> read
  without the call of \<^verbatim>\<open>ensure_branch_tip\<close> that the other read methods start
  with. The file holds the import of \<open>D\<close>, which merged
  \<open>C\<close>; the querier is for a branch whose tip is \<open>C\<close>, so the tip has a row in
  \<open>revision\<close> but is not an imported tip. \<^verbatim>\<open>walk_ancestry\<close> reads rows twice and
  returns without a call of \<^verbatim>\<open>ensure_branch_tip\<close> and without an import: the file is
  as before and the answer, \<open>A\<close> alone, lacks the tip. \<^verbatim>\<open>walk_mainline\<close> for a tip that
  the file does not know (\<open>B\<close>, over the import of \<open>A\<close>) returns the empty list, again
  with no call and no import. \<^verbatim>\<open>get_dotted_revnos\<close> on the first querier does call
  \<^verbatim>\<open>ensure_branch_tip\<close>, which imports \<open>C\<close> under the lock before the rows are read;
  once that import is there, \<^verbatim>\<open>walk_ancestry\<close> answers with \<open>C\<close> and \<open>A\<close>.
\<close>

theorem walk_without_ensure_counterexample:
  "incremental_import repo_merge empty_store ''D'' = Some (Inr store_D)
   \<and> q_branch_tip_db_id querier_C = Some 2
   \<and> is_imported_db_id store_D 2 = False
   \<and> outcome (walk_ancestry querier_C) = Some ([1], [ReadRows, ReadRows], store_D)
   \<and> outcome (walk_mainline (new_querier store_A ''B'')) = Some (Inr [], [], store_A)
   \<and> map_option (fst \<circ> snd) (outcome (get_dotted_revnos repo_merge querier_C [''C''])) =
       Some [EnsureBranchTip, LockAcquire, ImportStart, ImportDone, LockRelease, ReadRows]
   \<and> map_option fst
         (walk_ancestry (snd (the (ensure_branch_tip repo_merge querier_C)))) = Some [1, 2]"
  by code_simp

text \<open>
  What the read methods do about the import. \<^verbatim>\<open>get_dotted_revnos\<close>, \<^verbatim>\<open>get_revision_ids\<close>,
  \<^verbatim>\<open>get_mainline_where_merged\<close> and \<^verbatim>\<open>iter_merge_sorted_revisions\<close> call
  \<^verbatim>\<open>ensure_branch_tip\<close> first, and from its return on they only read: when they return,
  the file and the lock are as \<^verbatim>\<open>ensure_branch_tip\<close> left them and the trace has grown
  by reads of rows only. When \<^verbatim>\<open>ensure_branch_tip\<close> returns normally the tip counts as
  imported, and either nothing was imported (the tip was an imported tip already) or
  the file is the one that the incremental import of the tip leaves, the import having
  run between acquiring and releasing the lock when a lock was given.
  \<^verbatim>\<open>walk_ancestry\<close> and \<^verbatim>\<open>walk_mainline\<close> do not call \<^verbatim>\<open>ensure_branch_tip\<close>: from
  their start on they only read the file as it is.
\<close>

theorem read_methods_ensure_branch_tip:
  "(get_dotted_revnos repo q ids = Some (r1, q1) \<longrightarrow>
      (\<exists>e qe. ensure_branch_tip repo q = Some (e, qe) \<and> reads_only qe q1))
   \<and> (get_revision_ids repo q revnos = Some (r2, q2) \<longrightarrow>
      (\<exists>e qe. ensure_branch_tip repo q = Some (e, qe) \<and> reads_only qe q2))
   \<and> (get_mainline_where_merged repo q ids' = Some (r3, q3) \<longrightarrow>
      (\<exists>e qe. ensure_branch_tip repo q = Some (e, qe) \<and> reads_only qe q3))
   \<and> (iter_merge_sorted_revisions repo q start stop = Some (r4, q4) \<longrightarrow>
      (\<exists>e qe. ensure_branch_tip repo q = Some (e, qe) \<and> reads_only qe q4))
   \<and> (ensure_branch_tip repo q = Some (None, q5) \<longrightarrow>
      q_tip_is_imported q5
      \<and> (q_store q5 = q_store q \<and> q_trace q5 = q_trace q @ [EnsureBranchTip]
         \<or> incremental_import repo (q_store q) (q_branch_tip_rev_id q) = Some (Inr (q_store q5))
           \<and> q_trace q5 = q_trace q @ EnsureBranchTip # import_events (q_importer_lock q)))
   \<and> (walk_ancestry q = Some (r6, q6) \<longrightarrow> reads_only q q6)
   \<and> (walk_mainline q = Some (r7, q7) \<longrightarrow> reads_only q q7)"
proof (intro conjI)
  show "get_dotted_revnos repo q ids = Some (r1, q1) \<longrightarrow>
      (\<exists>e qe. ensure_branch_tip repo q = Some (e, qe) \<and> reads_only qe q1)"
    by (rule impI) (rule get_dotted_revnos_reads)
  show "get_revision_ids repo q revnos = Some (r2, q2) \<longrightarrow>
      (\<exists>e qe. ensure_branch_tip repo q = Some (e, qe) \<and> reads_only qe q2)"
    by (rule impI) (rule get_revision_ids_reads)
  show "get_mainline_where_merged repo q ids' = Some (r3, q3) \<longrightarrow>
      (\<exists>e qe. ensure_branch_tip repo q = Some (e, qe) \<and> reads_only qe q3)"
    by (rule impI) (rule get_mainline_where_merged_reads)
  show "iter_merge_sorted_revisions repo q start stop = Some (r4, q4) \<longrightarrow>
      (\<exists>e qe. ensure_branch_tip repo q = Some (e, qe) \<and> reads_only qe q4)"
    by (rule impI) (rule iter_merge_sorted_revisions_reads)
  show "ensure_branch_tip repo q = Some (None, q5) \<longrightarrow>
      q_tip_is_imported q5
      \<and> (q_store q5 = q_store q \<and> q_trace q5 = q_trace q @ [EnsureBranchTip]
         \<or> incremental_import repo (q_store q) (q_branch_tip_rev_id q) = Some (Inr (q_store q5))
           \<and> q_trace q5 = q_trace q @ EnsureBranchTip # import_events (q_importer_lock q))"
    by (rule impI) (rule ensure_branch_tip_Some)
  show "walk_ancestry q = Some (r6, q6) \<longrightarrow> reads_only q q6"
    by (rule impI) (rule walk_ancestry_reads)
  show "walk_mainline q = Some (r7, q7) \<longrightarrow> reads_only q q7"
    by (rule impI) (rule walk_mainline_reads)
qed

lemma querier_C_facts:
  "(case get_dotted_revnos repo_merge querier_C [''C''] of
      Some (r, q') \<Rightarrow> r = Inr [(''C'', [2])] | None \<Rightarrow> False)"
  "(case get_revision_ids repo_merge querier_C [[2]] of
      Some (r, q') \<Rightarrow> r = Inr [([2], ''C'')] | None \<Rightarrow> False)"
  "(case get_mainline_where_merged repo_merge querier_C [''A''] of
      Some (r, q') \<Rightarrow> r = Inr [(''A'', ''A'')] | None \<Rightarrow> False)"
  "(case iter_merge_sorted_revisions repo_merge querier_C None None of
      Some (r, q') \<Rightarrow> r = Inr [(''C'', 0, [2], False), (''A'', 0, [1], True)] | None \<Rightarrow> False)"
  "(case ensure_branch_tip repo_merge querier_C of
      Some (None, q') \<Rightarrow>
        q_trace q' = [EnsureBranchTip, LockAcquire, ImportStart, ImportDone, LockRelease]
        \<and> q_importer_lock q' = Some False
    | _ \<Rightarrow> False)"
  "(case walk_ancestry querier_C of Some (r, q') \<Rightarrow> r = [1] | None \<Rightarrow> False)"
  "(case walk_mainline querier_C of
      Some (r, q') \<Rightarrow> r = Inl (NameError ''tip_db_id'') | None \<Rightarrow> False)"
  by code_simp+

theorem read_methods_ensure_branch_tip_witness:
  "(\<exists>q' e qe. get_dotted_revnos repo_merge querier_C [''C''] = Some (Inr [(''C'', [2])], q')
       \<and> ensure_branch_tip repo_merge querier_C = Some (e, qe) \<and> reads_only qe q')
   \<and> (\<exists>q' e qe. get_revision_ids repo_merge querier_C [[2]] = Some (Inr [([2], ''C'')], q')
       \<and> ensure_branch_tip repo_merge querier_C = Some (e, qe) \<and> reads_only qe q')
   \<and> (\<exists>q' e qe. get_mainline_where_merged repo_merge querier_C [''A''] =
         Some (Inr [(''A'', ''A'')], q')
       \<and> ensure_branch_tip repo_merge querier_C = Some (e, qe) \<and> reads_only qe q')
   \<and> (\<exists>q' e qe. iter_merge_sorted_revisions repo_merge querier_C None None =
         Some (Inr [(''C'', 0, [2], False), (''A'', 0, [1], True)], q')
       \<and> ensure_branch_tip repo_merge querier_C = Some (e, qe) \<and> reads_only qe q')
   \<and> (\<exists>q'. ensure_branch_tip repo_merge querier_C = Some (None, q') \<and> q_tip_is_imported q'
       \<and> q_trace q' = [EnsureBranchTip, LockAcquire, ImportStart, ImportDone, LockRelease])
   \<and> (\<exists>q'. walk_ancestry querier_C = Some ([1], q') \<and> reads_only querier_C q')
   \<and> (\<exists>q'. walk_mainline querier_C = Some (Inl (NameError ''tip_db_id''), q')
       \<and> reads_only querier_C q')"
proof -
  from querier_C_facts(1) obtain q1 where
    a1: "get_dotted_revnos repo_merge querier_C [''C''] = Some (Inr [(''C'', [2])], q1)"
    by (auto split: option.splits)
  from querier_C_facts(2) obtain q2 where
    a2: "get_revision_ids repo_merge querier_C [[2]] = Some (Inr [([2], ''C'')], q2)"
    by (auto split: option.splits)
  from querier_C_facts(3) obtain q3 where
    a3: "get_mainline_where_merged repo_merge querier_C [''A''] = Some (Inr [(''A'', ''A'')], q3)"
    by (auto split: option.splits)
  from querier_C_facts(4) obtain q4 where
    a4: "iter_merge_sorted_revisions repo_merge querier_C None None =
           Some (Inr [(''C'', 0, [2], False), (''A'', 0, [1], True)], q4)"
    by (auto split: option.splits)
  from querier_C_facts(5) obtain q5 where
    a5: "ensure_branch_tip repo_merge querier_C = Some (None, q5)"
    and tr: "q_trace q5 = [EnsureBranchTip, LockAcquire, ImportStart, ImportDone, LockRelease]"
    by (auto split: option.splits)
  from querier_C_facts(6) obtain q6 where
    a6: "walk_ancestry querier_C = Some ([1], q6)"
    by (auto split: option.splits)
  from querier_C_facts(7) obtain q7 where
    a7: "walk_mainline querier_C = Some (Inl (NameError ''tip_db_id''), q7)"
    by (auto split: option.splits)
  note t = read_methods_ensure_branch_tip
    [of repo_merge querier_C "[''C'']" "Inr [(''C'', [2])]" q1
        "[[2]]" "Inr [([2], ''C'')]" q2
        "[''A'']" "Inr [(''A'', ''A'')]" q3
        None None "Inr [(''C'', 0, [2], False), (''A'', 0, [1], True)]" q4
        q5 "[1]" q6 "Inl (NameError ''tip_db_id'')" q7]
  note c1 = t [THEN conjunct1, rule_format, OF a1]
  note c2 = t [THEN conjunct2, THEN conjunct1, rule_format, OF a2]
  note c3 = t [THEN conjunct2, THEN conjunct2, THEN conjunct1, rule_format, OF a3]
  note c4 = t [THEN conjunct2, THEN conjunct2, THEN conjunct2, THEN conjunct1, rule_format, OF a4]
  note c5 = t [THEN conjunct2, THEN conjunct2, THEN conjunct2, THEN conjunct2, THEN conjunct1,
    rule_format, OF a5]
  note c6 = t [THEN conjunct2, THEN conjunct2, THEN conjunct2, THEN conjunct2, THEN conjunct2,
    THEN conjunct1, rule_format, OF a6]
  note c7 = t [THEN conjunct2, THEN conjunct2, THEN conjunct2, THEN conjunct2, THEN conjunct2,
    THEN conjunct2, rule_format, OF a7]
  from c5 have imp: "q_tip_is_imported q5" by simp
  have g1: "\<exists>q' e qe. get_dotted_revnos repo_merge querier_C [''C''] = Some (Inr [(''C'', [2])], q')
       \<and> ensure_branch_tip repo_merge querier_C = Some (e, qe) \<and> reads_only qe q'"
    using a1 c1 by blast
  have g2: "\<exists>q' e qe. get_revision_ids repo_merge querier_C [[2]] = Some (Inr [([2], ''C'')], q')
       \<and> ensure_branch_tip repo_merge querier_C = Some (e, qe) \<and> reads_only qe q'"
    using a2 c2 by blast
  have g3: "\<exists>q' e qe. get_mainline_where_merged repo_merge querier_C [''A''] =
         Some (Inr [(''A'', ''A'')], q')
       \<and> ensure_branch_tip repo_merge querier_C = Some (e, qe) \<and> reads_only qe q'"
    using a3 c3 by blast
  have g4: "\<exists>q' e qe. iter_merge_sorted_revisions repo_merge querier_C None None =
         Some (Inr [(''C'', 0, [2], False), (''A'', 0, [1], True)], q')
       \<and> ensure_branch_tip repo_merge querier_C = Some (e, qe) \<and> reads_only qe q'"
    using a4 c4 by blast
  have g5: "\<exists>q'. ensure_branch_tip repo_merge querier_C = Some (None, q') \<and> q_tip_is_imported q'
       \<and> q_trace q' = [EnsureBranchTip, LockAcquire, ImportStart, ImportDone, LockRelease]"
    using a5 imp tr by blast
  have g6: "\<exists>q'. walk_ancestry querier_C = Some ([1], q') \<and> reads_only querier_C q'"
    using a6 c6 by blast
  have g7: "\<exists>q'. walk_mainline querier_C = Some (Inl (NameError ''tip_db_id''), q')
       \<and> reads_only querier_C q'"
    using a7 c7 by blast
  show ?thesis by (intro conjI) (fact g1 g2 g3 g4 g5 g6 g7)+
qed

end
